theory Spec2Isabelle
  imports Complex_Main
begin

section \<open>The mmapfiles stressor: data model\<close>

text \<open>
  The development embeds \<^verbatim>\<open>stress-mmapfiles.c\<close>: the recursive directory traversal
  \<^verbatim>\<open>stress_mmapfiles_dir\<close>, the cycle driver \<^verbatim>\<open>stress_mmapfiles_child\<close> and the metrics
  computed by \<^verbatim>\<open>stress_mmapfiles\<close>.

  Conventions.
  \<^item> \<^verbatim>\<open>size_t\<close> values (lengths, the page size, table indices) are natural numbers. A
    file length comes from \<^verbatim>\<open>st_size\<close> (an \<^verbatim>\<open>off_t\<close>, below \<open>2^63\<close>) and the page size
    is the system's, so the sums the code forms on them stay below \<open>2^64\<close> and no
    wrap-around is written out.
  \<^item> The six accumulators are C doubles. They are modelled as reals: the counts are
    integers and the page counts are multiples of \<open>1 / page_size\<close>, on which double
    arithmetic is exact for a power-of-two page size and totals below \<open>2^53 / page_size\<close>.
  \<^item> Pointers are natural numbers, \<^verbatim>\<open>NULL\<close> is \<open>0\<close>.
  \<^item> Everything the operating system answers (directory listings, the results of
    \<^verbatim>\<open>open\<close>, \<^verbatim>\<open>fstat\<close>, \<^verbatim>\<open>mmap\<close>, \<^verbatim>\<open>munmap\<close>, the clock, the continue flag) is part
    of the input: a directory tree annotated with the answers each call gets.
\<close>

definition MMAP_MAX :: nat where
  "MMAP_MAX = 512 * 1024"

record stress_mapping_t =
  addr :: nat
  len :: nat

record stress_mmapfile_info_t =
  mmap_page_count :: real
  mmap_count :: real
  mmap_duration :: real
  munmap_page_count :: real
  munmap_count :: real
  munmap_duration :: real

text \<open>The value of \<^verbatim>\<open>errno\<close> after a failed \<^verbatim>\<open>mmap\<close>, and the result of the call.\<close>

datatype errno = ENOMEM | EACCES | EINVAL | ENODEV

datatype mmap_ret = Mapped nat | MAP_FAILED errno

text \<open>
  A regular file of the tree, with the answers the calls on it get: whether \<^verbatim>\<open>open\<close> and
  \<^verbatim>\<open>fstat\<close> succeed, \<^verbatim>\<open>statbuf.st_size\<close>, what \<^verbatim>\<open>stress_low_memory(len)\<close> answers if
  it is asked, what \<^verbatim>\<open>mmap\<close> returns and the time the call takes.
\<close>

record regfile =
  open_ok :: bool
  fstat_ok :: bool
  st_size :: nat
  low_memory :: bool
  mmap_result :: mmap_ret
  mmap_delta :: real

text \<open>
  A directory entry as \<^verbatim>\<open>readdir\<close> returns it: \<^verbatim>\<open>d_name\<close>, \<^verbatim>\<open>d_type\<close> (one constructor
  per type the code distinguishes) and, first, what \<^verbatim>\<open>stress_continue_flag()\<close> answers
  when the loop reaches this entry. A subdirectory carries what \<^verbatim>\<open>opendir\<close> gives for it:
  \<open>None\<close> when it cannot be opened, its listing otherwise.
\<close>

datatype dirent =
    DT_DIR (keep_going: bool) (d_name: string) (listing: "dirent list option")
  | DT_REG (keep_going: bool) (d_name: string) (reg: regfile)
  | DT_OTHER (keep_going: bool) (d_name: string)

text \<open>
  The calls that acquire or release a resource, in the order the code makes them: a
  descriptor opened and closed, each \<^verbatim>\<open>mmap\<close> call (length, \<^verbatim>\<open>MAP_SHARED\<close> or not,
  \<^verbatim>\<open>MAP_POPULATE\<close> or not, result), the pages the populate loop touched, each \<^verbatim>\<open>munmap\<close>
  call (address, length, success), each call of the retry helper, and each root the
  cycle driver hands to the traversal.
\<close>

datatype event =
    Ev_open
  | Ev_close
  | Ev_mmap nat bool bool mmap_ret
  | Ev_populate nat
  | Ev_munmap nat nat bool
  | Ev_munmap_retry nat nat
  | Ev_root string

text \<open>
  The state the code updates: the mapping table and its count, the shared metrics
  block, the bogo operation counter of \<^verbatim>\<open>args\<close>, the \<^verbatim>\<open>enomem\<close> flag, the rotation
  cursor \<^verbatim>\<open>idx\<close> of the cycle driver, and the calls made so far.
\<close>

record state =
  mappings :: "nat \<Rightarrow> stress_mapping_t"
  n_mappings :: nat
  mmapfile_info :: stress_mmapfile_info_t
  bogo :: nat
  enomem :: bool
  idx :: nat
  trace :: "event list"

text \<open>
  What a traversal is called with and does not change: \<^verbatim>\<open>args->page_size\<close>, whether
  \<^verbatim>\<open>g_opt_flags\<close> has \<^verbatim>\<open>OPT_FLAGS_OOM_AVOID\<close>, and the two settings.
\<close>

record ctx =
  page_size :: nat
  oom_avoid :: bool
  mmap_populate :: bool
  mmap_shared :: bool

section \<open>The traversal\<close>

text \<open>
  Modelled from the spec: \<^verbatim>\<open>stress_is_dot_filename\<close> is a helper of the stress-ng core;
  entries whose name is "." or ".." are skipped.
\<close>

definition stress_is_dot_filename :: "string \<Rightarrow> bool" where
  "stress_is_dot_filename name = (name = ''.'' \<or> name = ''..'')"

text \<open>The expression \<^verbatim>\<open>(double)(len + page_size - 1) / page_size\<close> of lines 146 and 218:
  the cast applies to the sum, so the division is a division of doubles.\<close>

definition page_count :: "nat \<Rightarrow> nat \<Rightarrow> real" where
  "page_count l ps = real (l + ps - 1) / real ps"

text \<open>
  The populate loop of lines 137 to 139, \<^verbatim>\<open>for (i = 0; i < len; i += page_size)\<close>,
  counting the bytes it reads. With a page size of zero and a non-empty file it never
  ends: the result is then \<open>None\<close>.
\<close>

partial_function (option) populate_loop :: "nat \<Rightarrow> nat \<Rightarrow> nat \<Rightarrow> nat \<Rightarrow> nat option" where
  "populate_loop ps l i k = (if i < l then populate_loop ps l (i + ps) (Suc k) else Some k)"

declare populate_loop.simps [code]

definition log_event :: "event \<Rightarrow> state \<Rightarrow> state" where
  "log_event ev s = s\<lparr>trace := trace s @ [ev]\<rparr>"

datatype loop_ctl = Continue | Break

text \<open>
  Lines 141 to 147, after a successful \<^verbatim>\<open>mmap\<close>: the record is written at index
  \<^verbatim>\<open>n_mappings\<close> (which the test of line 94 keeps below \<^verbatim>\<open>MMAP_MAX\<close>), the count and the
  three \<^verbatim>\<open>mmap\<close> accumulators grow, and \<^verbatim>\<open>stress_bogo_inc\<close> counts one operation.
\<close>

definition mmap_success :: "ctx \<Rightarrow> regfile \<Rightarrow> nat \<Rightarrow> state \<Rightarrow> state" where
  "mmap_success c f ptr s =
     s\<lparr>mappings := (mappings s)(n_mappings s := \<lparr>addr = ptr, len = st_size f\<rparr>),
       n_mappings := n_mappings s + 1,
       mmapfile_info := (mmapfile_info s)
         \<lparr>mmap_page_count := mmap_page_count (mmapfile_info s) + page_count (st_size f) (page_size c),
          mmap_count := mmap_count (mmapfile_info s) + 1,
          mmap_duration := mmap_duration (mmapfile_info s) + mmap_delta f\<rparr>,
       bogo := bogo s + 1\<rparr>"

text \<open>
  The \<^verbatim>\<open>DT_REG\<close> branch of the loop body (lines 107 to 155): what it does to the state
  and whether the loop goes on (\<^verbatim>\<open>continue\<close>, or falling out of the branch) or is left
  (\<^verbatim>\<open>break\<close>). \<open>None\<close> is the populate loop not returning.
\<close>

definition stress_mmapfiles_reg :: "ctx \<Rightarrow> regfile \<Rightarrow> state \<Rightarrow> (loop_ctl \<times> state) option" where
  "stress_mmapfiles_reg c f s =
     (if \<not> open_ok f then Some (Continue, s)
      else if \<not> fstat_ok f then Some (Continue, log_event Ev_close (log_event Ev_open s))
      else if oom_avoid c \<and> low_memory f then Some (Break, log_event Ev_close (log_event Ev_open s))
      else
        let s1 = log_event (Ev_mmap (st_size f) (mmap_shared c) (mmap_populate c) (mmap_result f))
                   (log_event Ev_open s)
        in (case mmap_result f of
              Mapped ptr \<Rightarrow>
                (case (if mmap_populate c then populate_loop (page_size c) (st_size f) 0 0 else Some 0) of
                   None \<Rightarrow> None
                 | Some k \<Rightarrow>
                     Some (Continue,
                       log_event Ev_close
                         (mmap_success c f ptr (if mmap_populate c then log_event (Ev_populate k) s1 else s1))))
            | MAP_FAILED e \<Rightarrow>
                if e = ENOMEM then Some (Break, log_event Ev_close (s1\<lparr>enomem := True\<rparr>))
                else Some (Continue, log_event Ev_close s1)))"

text \<open>
  \<^verbatim>\<open>stress_mmapfiles_dir\<close> (lines 71 to 160), on what \<^verbatim>\<open>opendir(path)\<close> gives, and its
  \<^verbatim>\<open>while\<close> loop over the entries \<^verbatim>\<open>readdir\<close> returns. The loop is left when \<^verbatim>\<open>*enomem\<close>
  is set, at the end of the listing, when the table is full and when the continue flag
  is down; a dot name is skipped; a directory is descended into; a regular file is
  handed to the branch above; any other type is passed over.
\<close>

fun stress_mmapfiles_dir :: "ctx \<Rightarrow> dirent list option \<Rightarrow> state \<Rightarrow> state option"
  and readdir_loop :: "ctx \<Rightarrow> dirent list \<Rightarrow> state \<Rightarrow> state option" where
  "stress_mmapfiles_dir c None s = Some s"
| "stress_mmapfiles_dir c (Some ds) s = readdir_loop c ds s"
| "readdir_loop c [] s = Some s"
| "readdir_loop c (d # ds) s =
     (if enomem s then Some s
      else if MMAP_MAX \<le> n_mappings s then Some s
      else if \<not> keep_going d then Some s
      else if stress_is_dot_filename (d_name d) then readdir_loop c ds s
      else (case d of
              DT_DIR _ _ sub \<Rightarrow>
                (case stress_mmapfiles_dir c sub s of
                   None \<Rightarrow> None
                 | Some s' \<Rightarrow> readdir_loop c ds s')
            | DT_REG _ _ f \<Rightarrow>
                (case stress_mmapfiles_reg c f s of
                   None \<Rightarrow> None
                 | Some (Continue, s') \<Rightarrow> readdir_loop c ds s'
                 | Some (Break, s') \<Rightarrow> Some s')
            | DT_OTHER _ _ \<Rightarrow> readdir_loop c ds s))"

section \<open>The metrics\<close>

text \<open>
  Lines 262 to 272 of \<^verbatim>\<open>stress_mmapfiles\<close>. A division is \<open>None\<close> when the divisor is
  zero, so that a rate is \<open>Some\<close> only if no division by zero took place.
\<close>

definition divide_checked :: "real \<Rightarrow> real \<Rightarrow> real option" where
  "divide_checked a b = (if b = 0 then None else Some (a / b))"

definition metric :: "real \<Rightarrow> real \<Rightarrow> real option" where
  "metric num den = (if den > 0 then divide_checked num den else Some 0)"

definition stress_mmapfiles_metrics :: "stress_mmapfile_info_t \<Rightarrow> real option list" where
  "stress_mmapfiles_metrics i =
     [metric (mmap_count i) (mmap_duration i),
      metric (munmap_count i) (munmap_duration i),
      metric (mmap_page_count i) (mmap_duration i),
      metric (munmap_page_count i) (munmap_duration i),
      metric (mmap_page_count i) (mmap_count i)]"

section \<open>The cycle driver\<close>

text \<open>The rotation of root directories, as the source lists them.\<close>

definition dirs :: "string list" where
  "dirs = [''/lib'', ''/lib32'', ''/lib64'', ''/boot'', ''/bin'', ''/etc,'', ''/sbin'',
           ''/usr'', ''/var'', ''/sys'', ''/proc'']"

text \<open>
  What the system answers during one cycle: what \<^verbatim>\<open>opendir\<close> gives for a root, whether
  the \<^verbatim>\<open>munmap\<close> of slot \<open>i\<close> succeeds and how long it takes, the content of the settings
  store while the cycle runs, and what \<^verbatim>\<open>stress_continue(args)\<close> answers after it.
\<close>

record cycle_env =
  opendir :: "string \<Rightarrow> dirent list option"
  munmap_ok :: "nat \<Rightarrow> bool"
  munmap_delta :: "nat \<Rightarrow> real"
  settings_now :: "string \<Rightarrow> bool option"
  stress_continue :: bool

text \<open>
  The body of the \<^verbatim>\<open>for\<close> loop over the roots (lines 198 to 204): a fresh \<^verbatim>\<open>enomem\<close>,
  the traversal of \<^verbatim>\<open>dirs[idx]\<close>, and the cursor moved on, back to zero past the last
  root. The cursor starts at zero and stays below the number of roots
  (\<open>roots_loop_rotation\<close> below), so that \<open>dirs ! idx\<close> is always one of the roots.
\<close>

definition visit_root :: "ctx \<Rightarrow> cycle_env \<Rightarrow> state \<Rightarrow> state option" where
  "visit_root c e s =
     (case stress_mmapfiles_dir c (opendir e (dirs ! idx s))
             (log_event (Ev_root (dirs ! idx s)) (s\<lparr>enomem := False\<rparr>)) of
        None \<Rightarrow> None
      | Some s1 \<Rightarrow> Some (s1\<lparr>idx := (if length dirs \<le> idx s + 1 then 0 else idx s + 1)\<rparr>))"

text \<open>The \<^verbatim>\<open>for\<close> loop of lines 197 to 207, from its index \<open>i\<close> on; it is left early
  when a root raised \<^verbatim>\<open>enomem\<close>.\<close>

function roots_loop :: "ctx \<Rightarrow> cycle_env \<Rightarrow> nat \<Rightarrow> state \<Rightarrow> state option" where
  "roots_loop c e i s =
     (if i < length dirs then
        (case visit_root c e s of
           None \<Rightarrow> None
         | Some s' \<Rightarrow> if enomem s' then Some s' else roots_loop c e (i + 1) s')
      else Some s)"
  by pat_completeness auto
termination
  by (relation "measure (\<lambda>(c, e, i, s). length dirs - i)") auto

text \<open>
  The body of the unmap loop (lines 210 to 223) for slot \<open>i\<close>: the timed \<^verbatim>\<open>munmap\<close>, the
  three accumulators on success, the retry helper on failure, and the slot cleared in
  both cases.
\<close>

definition munmap_slot :: "ctx \<Rightarrow> cycle_env \<Rightarrow> nat \<Rightarrow> state \<Rightarrow> state" where
  "munmap_slot c e i s =
     (let m = mappings s i;
          s1 = log_event (Ev_munmap (addr m) (len m) (munmap_ok e i)) s;
          s2 = (if munmap_ok e i then
                  s1\<lparr>mmapfile_info := (mmapfile_info s1)
                       \<lparr>munmap_duration := munmap_duration (mmapfile_info s1) + munmap_delta e i,
                        munmap_count := munmap_count (mmapfile_info s1) + 1,
                        munmap_page_count := munmap_page_count (mmapfile_info s1)
                                               + page_count (len m) (page_size c)\<rparr>\<rparr>
                else log_event (Ev_munmap_retry (addr m) (len m)) s1)
      in s2\<lparr>mappings := (mappings s2)(i := \<lparr>addr = 0, len = 0\<rparr>)\<rparr>)"

text \<open>The loop \<^verbatim>\<open>for (i = 0; i < n; i++)\<close> of lines 209 to 224, from its index \<open>i\<close> on.\<close>

function munmap_loop :: "ctx \<Rightarrow> cycle_env \<Rightarrow> nat \<Rightarrow> nat \<Rightarrow> state \<Rightarrow> state" where
  "munmap_loop c e n i s = (if i < n then munmap_loop c e n (i + 1) (munmap_slot c e i s) else s)"
  by pat_completeness auto
termination
  by (relation "measure (\<lambda>(c, e, n, i, s). n - i)") auto

text \<open>One turn of the \<^verbatim>\<open>do\<close> loop (lines 195 to 224): \<open>n\<close> starts at zero, the roots are
  traversed, and the \<open>n\<close> entries then in the table are unmapped.\<close>

definition cycle :: "ctx \<Rightarrow> cycle_env \<Rightarrow> state \<Rightarrow> state option" where
  "cycle c e s =
     (case roots_loop c e 0 (s\<lparr>n_mappings := 0\<rparr>) of
        None \<Rightarrow> None
      | Some s1 \<Rightarrow> Some (munmap_loop c e (n_mappings s1) 0 s1))"

text \<open>
  The \<^verbatim>\<open>do ... while (stress_continue(args))\<close> loop, on the answers of the cycles to
  come. It returns when \<^verbatim>\<open>stress_continue\<close> answers false; a run that is still going
  when the given cycles are used up has not returned: \<open>None\<close>.
\<close>

fun do_while :: "ctx \<Rightarrow> cycle_env list \<Rightarrow> state \<Rightarrow> state option" where
  "do_while c [] s = None"
| "do_while c (e # es) s =
     (case cycle c e s of
        None \<Rightarrow> None
      | Some s' \<Rightarrow> if stress_continue e then do_while c es s' else Some s')"

text \<open>
  Modelled from the spec: \<^verbatim>\<open>stress_get_setting\<close> is a function of the stress-ng core; a
  setting is read by name and the variable keeps its default when the name is absent.
\<close>

definition stress_get_setting :: "(string \<Rightarrow> bool option) \<Rightarrow> string \<Rightarrow> bool \<Rightarrow> bool" where
  "stress_get_setting store name dflt = (case store name of None \<Rightarrow> dflt | Some v \<Rightarrow> v)"

datatype exit_status = EXIT_SUCCESS | EXIT_NO_RESOURCE

definition no_mapping :: stress_mapping_t where
  "no_mapping = \<lparr>addr = 0, len = 0\<rparr>"

definition child_start :: "stress_mmapfile_info_t \<Rightarrow> nat \<Rightarrow> state" where
  "child_start info0 bogo0 =
     \<lparr>mappings = (\<lambda>_. no_mapping), n_mappings = 0, mmapfile_info = info0, bogo = bogo0,
      enomem = False, idx = 0, trace = []\<rparr>"

text \<open>
  \<^verbatim>\<open>stress_mmapfiles_child\<close> (lines 162 to 231): the two settings are read from the
  store as it is when the child starts, the table is allocated zeroed by \<^verbatim>\<open>calloc\<close>
  (failure ends the child with \<^verbatim>\<open>EXIT_NO_RESOURCE\<close>), and the loop runs. The arguments
  are the page size and the OOM-avoid flag, the settings store, whether \<^verbatim>\<open>calloc\<close>
  succeeds, the cycles' answers, and the metrics block and bogo counter the child
  starts with.
\<close>

definition stress_mmapfiles_child ::
  "nat \<Rightarrow> bool \<Rightarrow> (string \<Rightarrow> bool option) \<Rightarrow> bool \<Rightarrow> cycle_env list \<Rightarrow>
   stress_mmapfile_info_t \<Rightarrow> nat \<Rightarrow> (exit_status \<times> state) option" where
  "stress_mmapfiles_child ps oom store calloc_ok es info0 bogo0 =
     (let c = \<lparr>page_size = ps, oom_avoid = oom,
               mmap_populate = stress_get_setting store ''mmapfiles-populate'' False,
               mmap_shared = stress_get_setting store ''mmapfiles-shared'' False\<rparr>
      in if \<not> calloc_ok then Some (EXIT_NO_RESOURCE, child_start info0 bogo0)
         else (case do_while c es (child_start info0 bogo0) of
                 None \<Rightarrow> None
               | Some s \<Rightarrow> Some (EXIT_SUCCESS, s)))"

section \<open>Reading the calls made\<close>

text \<open>The results of the \<^verbatim>\<open>mmap\<close> calls, the regions mapped, the \<^verbatim>\<open>munmap\<close> calls, the
  calls of the retry helper and the roots visited, each in the order of the calls.\<close>

definition mmap_results :: "event list \<Rightarrow> mmap_ret list" where
  "mmap_results evs = concat (map (\<lambda>ev. case ev of Ev_mmap l sh po r \<Rightarrow> [r] | _ \<Rightarrow> []) evs)"

definition mmap_flags :: "event list \<Rightarrow> (bool \<times> bool) list" where
  "mmap_flags evs = concat (map (\<lambda>ev. case ev of Ev_mmap l sh po r \<Rightarrow> [(sh, po)] | _ \<Rightarrow> []) evs)"

definition mapped_regions :: "event list \<Rightarrow> (nat \<times> nat) list" where
  "mapped_regions evs =
     concat (map (\<lambda>ev. case ev of Ev_mmap l sh po (Mapped p) \<Rightarrow> [(p, l)] | _ \<Rightarrow> []) evs)"

definition munmap_calls :: "event list \<Rightarrow> (nat \<times> nat) list" where
  "munmap_calls evs = concat (map (\<lambda>ev. case ev of Ev_munmap a l ok \<Rightarrow> [(a, l)] | _ \<Rightarrow> []) evs)"

definition retry_calls :: "event list \<Rightarrow> (nat \<times> nat) list" where
  "retry_calls evs = concat (map (\<lambda>ev. case ev of Ev_munmap_retry a l \<Rightarrow> [(a, l)] | _ \<Rightarrow> []) evs)"

definition roots_visited :: "event list \<Rightarrow> string list" where
  "roots_visited evs = concat (map (\<lambda>ev. case ev of Ev_root p \<Rightarrow> [p] | _ \<Rightarrow> []) evs)"

definition open_fds :: "event list \<Rightarrow> int" where
  "open_fds evs = int (length (filter (\<lambda>ev. ev = Ev_open) evs)) - int (length (filter (\<lambda>ev. ev = Ev_close) evs))"

definition slot :: "state \<Rightarrow> nat \<Rightarrow> nat \<times> nat" where
  "slot s i = (addr (mappings s i), len (mappings s i))"

section \<open>Relations between the state before and after\<close>

text \<open>
  What a traversal does to the \<^verbatim>\<open>mmap\<close> calls made: with \<^verbatim>\<open>enomem\<close> set it does nothing;
  when it makes no call, the count and the flag are as before; when its first call fails
  with \<^verbatim>\<open>ENOMEM\<close>, that call is its only one, the count is as before and the flag is set.
\<close>

definition first_attempt_rel :: "state \<Rightarrow> state \<Rightarrow> bool" where
  "first_attempt_rel s s' \<longleftrightarrow>
     (enomem s \<longrightarrow> s' = s) \<and>
     (\<exists>l. mmap_results (trace s') = mmap_results (trace s) @ l
        \<and> (l = [] \<longrightarrow> n_mappings s' = n_mappings s \<and> enomem s' = enomem s)
        \<and> (\<forall>rest. l = MAP_FAILED ENOMEM # rest \<longrightarrow>
              rest = [] \<and> n_mappings s' = n_mappings s \<and> enomem s'))"

text \<open>
  What a traversal does to the table and the accumulators: the count grows, the slots
  below the old count and from the new count on are untouched, each new slot adds its
  page count and one mapping to the \<^verbatim>\<open>mmap\<close> accumulators and one bogo operation, the
  regions mapped are the new slots in table order, and nothing is unmapped.
\<close>

definition table_rel :: "ctx \<Rightarrow> state \<Rightarrow> state \<Rightarrow> bool" where
  "table_rel c s s' \<longleftrightarrow>
     n_mappings s \<le> n_mappings s' \<and>
     (\<forall>i. i < n_mappings s \<or> n_mappings s' \<le> i \<longrightarrow> mappings s' i = mappings s i) \<and>
     mmap_page_count (mmapfile_info s') =
       mmap_page_count (mmapfile_info s)
         + (\<Sum>i = n_mappings s..<n_mappings s'. page_count (len (mappings s' i)) (page_size c)) \<and>
     mmap_count (mmapfile_info s') =
       mmap_count (mmapfile_info s) + real (n_mappings s' - n_mappings s) \<and>
     munmap_page_count (mmapfile_info s') = munmap_page_count (mmapfile_info s) \<and>
     munmap_count (mmapfile_info s') = munmap_count (mmapfile_info s) \<and>
     munmap_duration (mmapfile_info s') = munmap_duration (mmapfile_info s) \<and>
     bogo s' = bogo s + (n_mappings s' - n_mappings s) \<and>
     mapped_regions (trace s') = mapped_regions (trace s) @ map (slot s') [n_mappings s..<n_mappings s'] \<and>
     munmap_calls (trace s') = munmap_calls (trace s) \<and>
     retry_calls (trace s') = retry_calls (trace s)"

text \<open>Every \<^verbatim>\<open>mmap\<close> call made so far carries the two flags of \<open>c\<close>.\<close>

definition flags_of :: "ctx \<Rightarrow> event list \<Rightarrow> bool" where
  "flags_of c evs \<longleftrightarrow> (\<forall>x \<in> set (mmap_flags evs). x = (mmap_shared c, mmap_populate c))"

section \<open>Inputs for the examples\<close>

text \<open>
  A page size of 4096 bytes with all options off, and with OOM avoidance on; a regular
  file of a given length that opens and maps at a given address; files for which the
  low-memory predicate answers true, or \<^verbatim>\<open>mmap\<close> fails with \<^verbatim>\<open>ENOMEM\<close>; a zeroed metrics
  block; and a state with one free slot in the table.
\<close>

definition ctx_4k :: ctx where
  "ctx_4k = \<lparr>page_size = 4096, oom_avoid = False, mmap_populate = False, mmap_shared = False\<rparr>"

definition ctx_oom :: ctx where
  "ctx_oom = \<lparr>page_size = 4096, oom_avoid = True, mmap_populate = False, mmap_shared = False\<rparr>"

definition file_of :: "nat \<Rightarrow> nat \<Rightarrow> regfile" where
  "file_of l p = \<lparr>open_ok = True, fstat_ok = True, st_size = l, low_memory = False,
                  mmap_result = Mapped p, mmap_delta = 1 / 1000\<rparr>"

definition low_file :: regfile where
  "low_file = \<lparr>open_ok = True, fstat_ok = True, st_size = 4096, low_memory = True,
                mmap_result = Mapped 4096, mmap_delta = 1 / 1000\<rparr>"

definition enomem_file :: regfile where
  "enomem_file = \<lparr>open_ok = True, fstat_ok = True, st_size = 4096, low_memory = False,
                   mmap_result = MAP_FAILED ENOMEM, mmap_delta = 1 / 1000\<rparr>"

definition zero_info :: stress_mmapfile_info_t where
  "zero_info = \<lparr>mmap_page_count = 0, mmap_count = 0, mmap_duration = 0,
                 munmap_page_count = 0, munmap_count = 0, munmap_duration = 0\<rparr>"

definition last_slot_start :: state where
  "last_slot_start = (child_start zero_info 0)\<lparr>n_mappings := MMAP_MAX - 1\<rparr>"

text \<open>
  Cycles: \<^verbatim>\<open>/lib\<close> holds two files and the second \<^verbatim>\<open>munmap\<close> fails; the same with every
  \<^verbatim>\<open>munmap\<close> succeeding; \<^verbatim>\<open>/lib64\<close> holds a file whose mapping fails with \<^verbatim>\<open>ENOMEM\<close>,
  and the state that cycle ends in; \<^verbatim>\<open>/lib\<close> holds one file, with a given settings store
  and answer of \<^verbatim>\<open>stress_continue\<close>; and a store in which "mmapfiles-shared" is set.
\<close>

definition two_files_env :: cycle_env where
  "two_files_env =
     \<lparr>opendir = (\<lambda>p. if p = ''/lib''
                      then Some [DT_REG True ''a'' (file_of 4095 4096), DT_REG True ''b'' (file_of 10 8192)]
                      else None),
      munmap_ok = (\<lambda>i. i \<noteq> 1), munmap_delta = (\<lambda>_. 1 / 1000),
      settings_now = (\<lambda>_. None), stress_continue = False\<rparr>"

definition all_ok_env :: cycle_env where
  "all_ok_env = two_files_env\<lparr>munmap_ok := (\<lambda>_. True)\<rparr>"

definition enomem_env :: cycle_env where
  "enomem_env =
     \<lparr>opendir = (\<lambda>p. if p = ''/lib64'' then Some [DT_REG True ''a'' enomem_file] else None),
      munmap_ok = (\<lambda>_. True), munmap_delta = (\<lambda>_. 1 / 1000),
      settings_now = (\<lambda>_. None), stress_continue = True\<rparr>"

definition after_enomem :: state where
  "after_enomem =
     (child_start zero_info 0)
       \<lparr>enomem := True, idx := 3,
        trace := [Ev_root ''/lib'', Ev_root ''/lib32'', Ev_root ''/lib64'', Ev_open,
                  Ev_mmap 4096 False False (MAP_FAILED ENOMEM), Ev_close]\<rparr>"

definition one_file_env :: "(string \<Rightarrow> bool option) \<Rightarrow> bool \<Rightarrow> cycle_env" where
  "one_file_env st cont =
     \<lparr>opendir = (\<lambda>p. if p = ''/lib'' then Some [DT_REG True ''a'' (file_of 4096 4096)] else None),
      munmap_ok = (\<lambda>_. True), munmap_delta = (\<lambda>_. 1 / 1000),
      settings_now = st, stress_continue = cont\<rparr>"

definition shared_on :: "string \<Rightarrow> bool option" where
  "shared_on name = (if name = ''mmapfiles-shared'' then Some True else None)"

section \<open>Facts about the traversal\<close>

subsection \<open>Basic facts\<close>

lemma log_event_fields [simp]:
  "mappings (log_event ev s) = mappings s"
  "n_mappings (log_event ev s) = n_mappings s"
  "mmapfile_info (log_event ev s) = mmapfile_info s"
  "bogo (log_event ev s) = bogo s"
  "enomem (log_event ev s) = enomem s"
  "idx (log_event ev s) = idx s"
  "trace (log_event ev s) = trace s @ [ev]"
  by (simp_all add: log_event_def)

lemma mmap_success_fields [simp]:
  "mappings (mmap_success c f p s) = (mappings s)(n_mappings s := \<lparr>addr = p, len = st_size f\<rparr>)"
  "n_mappings (mmap_success c f p s) = n_mappings s + 1"
  "bogo (mmap_success c f p s) = bogo s + 1"
  "enomem (mmap_success c f p s) = enomem s"
  "idx (mmap_success c f p s) = idx s"
  "trace (mmap_success c f p s) = trace s"
  by (simp_all add: mmap_success_def)

lemma mmap_success_info [simp]:
  "mmap_page_count (mmapfile_info (mmap_success c f p s)) =
     mmap_page_count (mmapfile_info s) + page_count (st_size f) (page_size c)"
  "mmap_count (mmapfile_info (mmap_success c f p s)) = mmap_count (mmapfile_info s) + 1"
  "mmap_duration (mmapfile_info (mmap_success c f p s)) = mmap_duration (mmapfile_info s) + mmap_delta f"
  "munmap_page_count (mmapfile_info (mmap_success c f p s)) = munmap_page_count (mmapfile_info s)"
  "munmap_count (mmapfile_info (mmap_success c f p s)) = munmap_count (mmapfile_info s)"
  "munmap_duration (mmapfile_info (mmap_success c f p s)) = munmap_duration (mmapfile_info s)"
  by (simp_all add: mmap_success_def)

lemma mmap_results_simps [simp]:
  "mmap_results [] = []"
  "mmap_results (xs @ ys) = mmap_results xs @ mmap_results ys"
  "mmap_results (Ev_mmap l sh po r # evs) = r # mmap_results evs"
  "mmap_results (Ev_open # evs) = mmap_results evs"
  "mmap_results (Ev_close # evs) = mmap_results evs"
  "mmap_results (Ev_populate k # evs) = mmap_results evs"
  "mmap_results (Ev_munmap a l ok # evs) = mmap_results evs"
  "mmap_results (Ev_munmap_retry a l # evs) = mmap_results evs"
  "mmap_results (Ev_root p # evs) = mmap_results evs"
  by (simp_all add: mmap_results_def)

lemma mmap_flags_simps [simp]:
  "mmap_flags [] = []"
  "mmap_flags (xs @ ys) = mmap_flags xs @ mmap_flags ys"
  "mmap_flags (Ev_mmap l sh po r # evs) = (sh, po) # mmap_flags evs"
  "mmap_flags (Ev_open # evs) = mmap_flags evs"
  "mmap_flags (Ev_close # evs) = mmap_flags evs"
  "mmap_flags (Ev_populate k # evs) = mmap_flags evs"
  "mmap_flags (Ev_munmap a l ok # evs) = mmap_flags evs"
  "mmap_flags (Ev_munmap_retry a l # evs) = mmap_flags evs"
  "mmap_flags (Ev_root p # evs) = mmap_flags evs"
  by (simp_all add: mmap_flags_def)

lemma mapped_regions_simps [simp]:
  "mapped_regions [] = []"
  "mapped_regions (xs @ ys) = mapped_regions xs @ mapped_regions ys"
  "mapped_regions (Ev_mmap l sh po (Mapped q) # evs) = (q, l) # mapped_regions evs"
  "mapped_regions (Ev_mmap l sh po (MAP_FAILED er) # evs) = mapped_regions evs"
  "mapped_regions (Ev_open # evs) = mapped_regions evs"
  "mapped_regions (Ev_close # evs) = mapped_regions evs"
  "mapped_regions (Ev_populate k # evs) = mapped_regions evs"
  "mapped_regions (Ev_munmap a l ok # evs) = mapped_regions evs"
  "mapped_regions (Ev_munmap_retry a l # evs) = mapped_regions evs"
  "mapped_regions (Ev_root p # evs) = mapped_regions evs"
  by (simp_all add: mapped_regions_def)

lemma munmap_calls_simps [simp]:
  "munmap_calls [] = []"
  "munmap_calls (xs @ ys) = munmap_calls xs @ munmap_calls ys"
  "munmap_calls (Ev_mmap l sh po r # evs) = munmap_calls evs"
  "munmap_calls (Ev_open # evs) = munmap_calls evs"
  "munmap_calls (Ev_close # evs) = munmap_calls evs"
  "munmap_calls (Ev_populate k # evs) = munmap_calls evs"
  "munmap_calls (Ev_munmap a l ok # evs) = (a, l) # munmap_calls evs"
  "munmap_calls (Ev_munmap_retry a l # evs) = munmap_calls evs"
  "munmap_calls (Ev_root p # evs) = munmap_calls evs"
  by (simp_all add: munmap_calls_def)

lemma retry_calls_simps [simp]:
  "retry_calls [] = []"
  "retry_calls (xs @ ys) = retry_calls xs @ retry_calls ys"
  "retry_calls (Ev_mmap l sh po r # evs) = retry_calls evs"
  "retry_calls (Ev_open # evs) = retry_calls evs"
  "retry_calls (Ev_close # evs) = retry_calls evs"
  "retry_calls (Ev_populate k # evs) = retry_calls evs"
  "retry_calls (Ev_munmap a l ok # evs) = retry_calls evs"
  "retry_calls (Ev_munmap_retry a l # evs) = (a, l) # retry_calls evs"
  "retry_calls (Ev_root p # evs) = retry_calls evs"
  by (simp_all add: retry_calls_def)

lemma roots_visited_simps [simp]:
  "roots_visited [] = []"
  "roots_visited (xs @ ys) = roots_visited xs @ roots_visited ys"
  "roots_visited (Ev_mmap l sh po r # evs) = roots_visited evs"
  "roots_visited (Ev_open # evs) = roots_visited evs"
  "roots_visited (Ev_close # evs) = roots_visited evs"
  "roots_visited (Ev_populate k # evs) = roots_visited evs"
  "roots_visited (Ev_munmap a l ok # evs) = roots_visited evs"
  "roots_visited (Ev_munmap_retry a l # evs) = roots_visited evs"
  "roots_visited (Ev_root p # evs) = p # roots_visited evs"
  by (simp_all add: roots_visited_def)

lemma open_fds_simps [simp]:
  "open_fds [] = 0"
  "open_fds (xs @ ys) = open_fds xs + open_fds ys"
  "open_fds (Ev_mmap l sh po r # evs) = open_fds evs"
  "open_fds (Ev_open # evs) = open_fds evs + 1"
  "open_fds (Ev_close # evs) = open_fds evs + (- 1)"
  "open_fds (Ev_populate k # evs) = open_fds evs"
  "open_fds (Ev_munmap a l ok # evs) = open_fds evs"
  "open_fds (Ev_munmap_retry a l # evs) = open_fds evs"
  "open_fds (Ev_root p # evs) = open_fds evs"
  by (simp_all add: open_fds_def)

subsection \<open>The populate loop and the regular-file branch\<close>

lemma populate_loop_returns:
  "0 < ps \<Longrightarrow> \<exists>k'. populate_loop ps l i k = Some k'"
proof (induction "l - i" arbitrary: i k rule: less_induct)
  case less
  show ?case
  proof (cases "i < l")
    case True
    with less.prems have "l - (i + ps) < l - i" by arith
    from less.hyps [OF this less.prems]
    obtain k' where "populate_loop ps l (i + ps) (Suc k) = Some k'" by blast
    with True show ?thesis by (subst populate_loop.simps) simp
  next
    case False
    then show ?thesis by (subst populate_loop.simps) simp
  qed
qed

text \<open>The loop reads one byte per page of the file: \<open>ceil (len / page_size)\<close> bytes.\<close>

lemma div_step:
  fixes ps i l :: nat
  assumes "0 < ps" "i < l"
  shows "(l - i + ps - 1) div ps = Suc ((l - (i + ps) + ps - 1) div ps)"
proof -
  from assms(2) obtain m where l: "l = i + Suc m" by (metis less_imp_Suc_add add_Suc_right)
  have lhs: "(l - i + ps - 1) div ps = Suc (m div ps)"
    using assms(1) by (simp add: l)
  show ?thesis
  proof (cases "ps \<le> Suc m")
    case True
    then have "l - (i + ps) + ps - 1 = m" by (simp add: l)
    with lhs show ?thesis by simp
  next
    case False
    then have "l - (i + ps) + ps - 1 = ps - 1" and "m div ps = 0" by (simp_all add: l)
    with lhs assms(1) show ?thesis by simp
  qed
qed

lemma populate_loop_count:
  "0 < ps \<Longrightarrow> populate_loop ps l i k = Some (k + (l - i + ps - 1) div ps)"
proof (induction "l - i" arbitrary: i k rule: less_induct)
  case less
  show ?case
  proof (cases "i < l")
    case True
    with less.prems have "l - (i + ps) < l - i" by arith
    from less.hyps [OF this less.prems]
    have "populate_loop ps l (i + ps) (Suc k) = Some (Suc k + (l - (i + ps) + ps - 1) div ps)" .
    with True div_step [OF less.prems True] show ?thesis by (subst populate_loop.simps) simp
  next
    case False
    then have "l - i + ps - 1 < ps" using less.prems by arith
    with False show ?thesis by (subst populate_loop.simps) simp
  qed
qed

lemma stress_mmapfiles_reg_returns:
  "0 < page_size c \<Longrightarrow> \<exists>r s'. stress_mmapfiles_reg c f s = Some (r, s')"
  using populate_loop_returns [of "page_size c" "st_size f" 0 0]
  by (auto simp: stress_mmapfiles_reg_def Let_def split: mmap_ret.splits)

text \<open>The six ways through the branch.\<close>

lemma stress_mmapfiles_reg_cases [consumes 1, case_names no_open no_stat low_mem mapped no_mem failed]:
  assumes "stress_mmapfiles_reg c f s = Some (r, s')"
  obtains
    "\<not> open_ok f" "r = Continue" "s' = s"
  | "open_ok f" "\<not> fstat_ok f" "r = Continue" "s' = log_event Ev_close (log_event Ev_open s)"
  | "open_ok f" "fstat_ok f" "oom_avoid c" "low_memory f" "r = Break"
      "s' = log_event Ev_close (log_event Ev_open s)"
  | p s1 where "open_ok f" "fstat_ok f" "\<not> (oom_avoid c \<and> low_memory f)" "mmap_result f = Mapped p"
      "r = Continue" "s' = log_event Ev_close (mmap_success c f p s1)"
      "mappings s1 = mappings s" "n_mappings s1 = n_mappings s" "mmapfile_info s1 = mmapfile_info s"
      "bogo s1 = bogo s" "enomem s1 = enomem s" "idx s1 = idx s"
      "\<exists>evs. trace s1 = trace s @ Ev_open # Ev_mmap (st_size f) (mmap_shared c) (mmap_populate c) (Mapped p) # evs
          \<and> (evs = [] \<or> (\<exists>k. evs = [Ev_populate k]))"
  | "open_ok f" "fstat_ok f" "\<not> (oom_avoid c \<and> low_memory f)" "mmap_result f = MAP_FAILED ENOMEM"
      "r = Break"
      "s' = log_event Ev_close
              ((log_event (Ev_mmap (st_size f) (mmap_shared c) (mmap_populate c) (MAP_FAILED ENOMEM))
                 (log_event Ev_open s))\<lparr>enomem := True\<rparr>)"
  | er where "open_ok f" "fstat_ok f" "\<not> (oom_avoid c \<and> low_memory f)" "mmap_result f = MAP_FAILED er"
      "er \<noteq> ENOMEM" "r = Continue"
      "s' = log_event Ev_close
              (log_event (Ev_mmap (st_size f) (mmap_shared c) (mmap_populate c) (MAP_FAILED er))
                 (log_event Ev_open s))"
  using assms
  unfolding stress_mmapfiles_reg_def Let_def
  by (auto split: if_splits mmap_ret.splits option.splits)

subsection \<open>The loop, case by case\<close>

lemma readdir_loop_stop:
  "enomem s \<or> MMAP_MAX \<le> n_mappings s \<or> \<not> keep_going d \<Longrightarrow> readdir_loop c (d # ds) s = Some s"
  by auto

lemma readdir_loop_dot:
  "\<not> enomem s \<Longrightarrow> n_mappings s < MMAP_MAX \<Longrightarrow> keep_going d \<Longrightarrow>
   stress_is_dot_filename (d_name d) \<Longrightarrow> readdir_loop c (d # ds) s = readdir_loop c ds s"
  by auto

lemma readdir_loop_dir:
  "\<not> enomem s \<Longrightarrow> n_mappings s < MMAP_MAX \<Longrightarrow> k \<Longrightarrow> \<not> stress_is_dot_filename nm \<Longrightarrow>
   readdir_loop c (DT_DIR k nm sub # ds) s =
     (case stress_mmapfiles_dir c sub s of None \<Rightarrow> None | Some s' \<Rightarrow> readdir_loop c ds s')"
  by auto

lemma readdir_loop_reg:
  "\<not> enomem s \<Longrightarrow> n_mappings s < MMAP_MAX \<Longrightarrow> k \<Longrightarrow> \<not> stress_is_dot_filename nm \<Longrightarrow>
   readdir_loop c (DT_REG k nm f # ds) s =
     (case stress_mmapfiles_reg c f s of
        None \<Rightarrow> None
      | Some (Continue, s') \<Rightarrow> readdir_loop c ds s'
      | Some (Break, s') \<Rightarrow> Some s')"
  by auto

lemma readdir_loop_other:
  "\<not> enomem s \<Longrightarrow> n_mappings s < MMAP_MAX \<Longrightarrow> k \<Longrightarrow> \<not> stress_is_dot_filename nm \<Longrightarrow>
   readdir_loop c (DT_OTHER k nm # ds) s = readdir_loop c ds s"
  by auto

declare readdir_loop.simps(2) [simp del]

text \<open>
  A relation between the state before and after that holds of no step and of one
  regular file, and that composes, holds of a whole traversal.
\<close>

lemma traversal_rule:
  assumes rfl: "\<And>s. R s s"
    and trn: "\<And>s s' s''. R s s' \<Longrightarrow> R s' s'' \<Longrightarrow> R s s''"
    and stp: "\<And>f s r s'. \<not> enomem s \<Longrightarrow> n_mappings s < MMAP_MAX \<Longrightarrow>
               stress_mmapfiles_reg c f s = Some (r, s') \<Longrightarrow> R s s'"
  shows "stress_mmapfiles_dir c dir s = Some s' \<Longrightarrow> R s s'"
    and "readdir_loop c ds s = Some s' \<Longrightarrow> R s s'"
proof -
  have "c' = c \<Longrightarrow> stress_mmapfiles_dir c' dir s = Some s' \<Longrightarrow> R s s'"
    and "c' = c \<Longrightarrow> readdir_loop c' ds s = Some s' \<Longrightarrow> R s s'" for c'
  proof (induction c' dir s and c' ds s arbitrary: s' and s'
      rule: stress_mmapfiles_dir_readdir_loop.induct)
    case (1 c s)
    then show ?case using rfl by simp
  next
    case (2 c ds s)
    then show ?case by simp
  next
    case (3 c s)
    then show ?case using rfl by simp
  next
    case (4 c' d ds s)
    show ?case
    proof (cases "enomem s \<or> MMAP_MAX \<le> n_mappings s \<or> \<not> keep_going d")
      case True
      then have "readdir_loop c' (d # ds) s = Some s" by (rule readdir_loop_stop)
      with "4.prems" show ?thesis using rfl by simp
    next
      case False
      then have g: "\<not> enomem s" "\<not> MMAP_MAX \<le> n_mappings s" "\<not> \<not> keep_going d"
        and g': "n_mappings s < MMAP_MAX" "keep_going d" by auto
      show ?thesis
      proof (cases "stress_is_dot_filename (d_name d)")
        case True
        with "4.prems" g' g(1) have "readdir_loop c' ds s = Some s'"
          by (simp add: readdir_loop_dot)
        with "4.IH"(1) g True "4.prems"(1) show ?thesis by blast
      next
        case dot: False
        show ?thesis
        proof (cases d)
          case (DT_DIR k nm sub)
          with "4.prems" g g' dot obtain s1 where
            a: "stress_mmapfiles_dir c' sub s = Some s1" and b: "readdir_loop c' ds s1 = Some s'"
            by (simp add: readdir_loop_dir split: option.splits)
          have "R s s1" using "4.IH"(2) g dot DT_DIR "4.prems"(1) a by blast
          moreover have "R s1 s'" using "4.IH"(3) g dot DT_DIR a "4.prems"(1) b by blast
          ultimately show ?thesis by (rule trn)
        next
          case (DT_REG k nm f)
          with "4.prems" g g' dot obtain r s1 where
            a: "stress_mmapfiles_reg c' f s = Some (r, s1)"
            and b: "(r = Continue \<and> readdir_loop c' ds s1 = Some s') \<or> (r = Break \<and> s1 = s')"
            by (simp add: readdir_loop_reg split: option.splits loop_ctl.splits prod.splits)
          have s: "R s s1" using stp [of s f r s1] g' g(1) a "4.prems"(1) by simp
          from b show ?thesis
          proof
            assume "r = Continue \<and> readdir_loop c' ds s1 = Some s'"
            then have "R s1 s'" using "4.IH"(4) g dot DT_REG a "4.prems"(1) by blast
            with s show ?thesis by (rule trn)
          next
            assume "r = Break \<and> s1 = s'"
            with s show ?thesis by simp
          qed
        next
          case (DT_OTHER k nm)
          with "4.prems" g g' dot have "readdir_loop c' ds s = Some s'"
            by (simp add: readdir_loop_other)
          with "4.IH"(5) g dot DT_OTHER "4.prems"(1) show ?thesis by blast
        qed
      qed
    qed
  qed
  then show "stress_mmapfiles_dir c dir s = Some s' \<Longrightarrow> R s s'"
    and "readdir_loop c ds s = Some s' \<Longrightarrow> R s s'" by simp_all
qed

text \<open>With a positive page size the traversal returns.\<close>

lemma traversal_returns:
  "0 < page_size c \<Longrightarrow> \<exists>s'. stress_mmapfiles_dir c dir s = Some s'"
  "0 < page_size c \<Longrightarrow> \<exists>s'. readdir_loop c ds s = Some s'"
proof (induction c dir s and c ds s rule: stress_mmapfiles_dir_readdir_loop.induct)
  case (4 c d ds s)
  show ?case
  proof (cases "enomem s \<or> MMAP_MAX \<le> n_mappings s \<or> \<not> keep_going d")
    case True
    then show ?thesis by (simp add: readdir_loop_stop)
  next
    case False
    then have g: "\<not> enomem s" "\<not> MMAP_MAX \<le> n_mappings s" "\<not> \<not> keep_going d"
      and g': "n_mappings s < MMAP_MAX" "keep_going d" by auto
    show ?thesis
    proof (cases "stress_is_dot_filename (d_name d)")
      case True
      with "4.IH"(1) g "4.prems" g' show ?thesis by (simp add: readdir_loop_dot)
    next
      case dot: False
      show ?thesis
      proof (cases d)
        case (DT_DIR k nm sub)
        from "4.IH"(2) g dot DT_DIR "4.prems" obtain s1 where
          a: "stress_mmapfiles_dir c sub s = Some s1" by blast
        from "4.IH"(3) g dot DT_DIR a "4.prems" obtain s2 where
          "readdir_loop c ds s1 = Some s2" by blast
        with a g g' dot DT_DIR show ?thesis by (simp add: readdir_loop_dir)
      next
        case (DT_REG k nm f)
        obtain r s1 where a: "stress_mmapfiles_reg c f s = Some (r, s1)"
          using stress_mmapfiles_reg_returns [OF "4.prems"] by blast
        show ?thesis
        proof (cases r)
          case Continue
          from "4.IH"(4) g dot DT_REG a Continue "4.prems" obtain s2 where
            "readdir_loop c ds s1 = Some s2" by blast
          with a Continue g g' dot DT_REG show ?thesis by (simp add: readdir_loop_reg)
        next
          case Break
          with a g g' dot DT_REG show ?thesis by (simp add: readdir_loop_reg)
        qed
      next
        case (DT_OTHER k nm)
        with "4.IH"(5) g g' dot "4.prems" show ?thesis by (simp add: readdir_loop_other)
      qed
    qed
  qed
qed simp_all

text \<open>A traversal closes every descriptor it opens.\<close>

lemma traversal_closes_descriptors:
  "stress_mmapfiles_dir c dir s = Some s' \<Longrightarrow> open_fds (trace s') = open_fds (trace s)"
proof (rule traversal_rule(1) [where c = c and dir = dir and s = s and s' = s' and
      R = "\<lambda>s s'. open_fds (trace s') = open_fds (trace s)"])
  fix f s r s'
  assume "stress_mmapfiles_reg c f s = Some (r, s')"
  then show "open_fds (trace s') = open_fds (trace s)"
    by (cases rule: stress_mmapfiles_reg_cases) auto
qed auto

section \<open>The derived rates\<close>

text \<open>
  Claim C7. Each of the four rates per second is exactly zero when its duration
  accumulator is zero, whatever the count; the pages-per-mapping rate is exactly zero
  when \<open>mmap_count\<close> is zero; and none of the five computations divides by zero (no
  entry of the result is \<open>None\<close>).
\<close>

theorem derived_rates_guarded:
  "(mmap_duration i = 0 \<longrightarrow>
      stress_mmapfiles_metrics i ! 0 = Some 0 \<and> stress_mmapfiles_metrics i ! 2 = Some 0) \<and>
   (munmap_duration i = 0 \<longrightarrow>
      stress_mmapfiles_metrics i ! 1 = Some 0 \<and> stress_mmapfiles_metrics i ! 3 = Some 0) \<and>
   (mmap_count i = 0 \<longrightarrow> stress_mmapfiles_metrics i ! 4 = Some 0) \<and>
   length (stress_mmapfiles_metrics i) = 5 \<and>
   None \<notin> set (stress_mmapfiles_metrics i)"
  by (simp add: stress_mmapfiles_metrics_def metric_def divide_checked_def)

text \<open>
  Counts of 3 and durations of zero: the four rates per second are zero and the fifth is
  \<open>7 / 3\<close>; with a zero count the fifth is zero.
\<close>

theorem derived_rates_guarded_witness:
  "stress_mmapfiles_metrics
     \<lparr>mmap_page_count = 7, mmap_count = 3, mmap_duration = 0,
      munmap_page_count = 7, munmap_count = 3, munmap_duration = 0\<rparr> =
     [Some 0, Some 0, Some 0, Some 0, Some (7 / 3)] \<and>
   stress_mmapfiles_metrics
     \<lparr>mmap_page_count = 0, mmap_count = 0, mmap_duration = 0,
      munmap_page_count = 0, munmap_count = 0, munmap_duration = 0\<rparr> ! 4 = Some 0"
  using derived_rates_guarded [of "\<lparr>mmap_page_count = 7, mmap_count = 3, mmap_duration = 0,
      munmap_page_count = 7, munmap_count = 3, munmap_duration = 0\<rparr>"]
    derived_rates_guarded [of "\<lparr>mmap_page_count = 0, mmap_count = 0, mmap_duration = 0,
      munmap_page_count = 0, munmap_count = 0, munmap_duration = 0\<rparr>"]
  by (simp add: stress_mmapfiles_metrics_def metric_def divide_checked_def)

section \<open>One regular file\<close>

subsection \<open>The example inputs, field by field\<close>

lemma ctx_4k_simps [simp]:
  "page_size ctx_4k = 4096" "oom_avoid ctx_4k = False" "mmap_populate ctx_4k = False" "mmap_shared ctx_4k = False"
  by (simp_all add: ctx_4k_def)

lemma file_of_simps [simp]:
  "open_ok (file_of l p)" "fstat_ok (file_of l p)" "st_size (file_of l p) = l"
  "low_memory (file_of l p) = False" "mmap_result (file_of l p) = Mapped p"
  "mmap_delta (file_of l p) = 1 / 1000"
  by (simp_all add: file_of_def)

lemma child_start_fields [simp]:
  "mappings (child_start i b) = (\<lambda>_. no_mapping)"
  "n_mappings (child_start i b) = 0"
  "mmapfile_info (child_start i b) = i"
  "bogo (child_start i b) = b"
  "enomem (child_start i b) = False"
  "idx (child_start i b) = 0"
  "trace (child_start i b) = []"
  by (simp_all add: child_start_def)

subsection \<open>The page count of a mapping\<close>

lemma stress_mmapfiles_reg_mapped:
  "open_ok f \<Longrightarrow> fstat_ok f \<Longrightarrow> \<not> (oom_avoid c \<and> low_memory f) \<Longrightarrow> mmap_result f = Mapped p \<Longrightarrow>
   \<not> mmap_populate c \<Longrightarrow>
   stress_mmapfiles_reg c f s =
     Some (Continue, log_event Ev_close (mmap_success c f p
        (log_event (Ev_mmap (st_size f) (mmap_shared c) False (Mapped p)) (log_event Ev_open s))))"
  by (auto simp: stress_mmapfiles_reg_def Let_def)

lemma page_count_gap:
  "0 < ps \<Longrightarrow> page_count l ps = real l / real ps + (1 - 1 / real ps)"
  by (simp add: page_count_def field_simps of_nat_diff)

text \<open>
  Claim C2 says that a successful mapping of \<open>len\<close> bytes adds \<open>ceil (len / page_size)\<close> to
  \<^verbatim>\<open>mmap_page_count\<close>, one page for \<open>len = page_size - 1\<close>. The code divides as doubles
  (the cast of line 146 applies to the sum \<^verbatim>\<open>len + page_size - 1\<close>, not to the quotient), so
  what it adds is \<open>len / page_size + (1 - 1 / page_size)\<close>, as \<open>page_count_gap\<close> shows.
  For a file of 4095 bytes and pages of 4096 bytes the branch adds \<open>8190 / 4096\<close>, which
  is \<open>4095 / 2048\<close>, where the ceiling is 1; for a length of zero the expression is
  \<open>4095 / 4096\<close>, not zero.
\<close>

theorem mmap_page_count_is_not_ceiling:
  "\<exists>s'. stress_mmapfiles_reg ctx_4k (file_of 4095 65536) (child_start zero_info 0) = Some (Continue, s')
     \<and> mmap_page_count (mmapfile_info s') = 4095 / 2048
     \<and> \<lceil>(4095 :: real) / 4096\<rceil> = 1
     \<and> page_count 0 4096 = 4095 / 4096"
  by (simp add: stress_mmapfiles_reg_mapped page_count_def zero_info_def)

subsection \<open>An entry that is not mapped\<close>

lemma stress_mmapfiles_reg_unmapped:
  assumes "\<not> open_ok f \<or> \<not> fstat_ok f \<or> (oom_avoid c \<and> low_memory f) \<or> (\<exists>er. mmap_result f = MAP_FAILED er)"
  shows "\<exists>r s'. stress_mmapfiles_reg c f s = Some (r, s')
     \<and> mmapfile_info s' = mmapfile_info s \<and> bogo s' = bogo s
     \<and> n_mappings s' = n_mappings s \<and> mappings s' = mappings s"
proof (cases "\<not> open_ok f \<or> \<not> fstat_ok f \<or> (oom_avoid c \<and> low_memory f)")
  case True
  then show ?thesis by (auto simp: stress_mmapfiles_reg_def)
next
  case False
  with assms obtain er where "mmap_result f = MAP_FAILED er" by blast
  with False show ?thesis by (simp add: stress_mmapfiles_reg_def Let_def)
qed

text \<open>
  Claim C9. When the handling of a regular file stops before a successful mapping (the
  open fails, the stat fails, the low-memory stop is taken, or \<^verbatim>\<open>mmap\<close> fails for any
  reason), the branch returns and the six accumulators, the bogo counter, the table
  count and the table are as before; so the time measured around a failed \<^verbatim>\<open>mmap\<close> is
  not added to \<^verbatim>\<open>mmap_duration\<close>. The last conjunct ties the branch to the loop: the
  loop, arrived at this entry, goes on with the rest of the listing or is left, from
  that state.
\<close>

theorem failed_entry_changes_nothing:
  assumes "\<not> open_ok f \<or> \<not> fstat_ok f \<or> (oom_avoid c \<and> low_memory f) \<or> (\<exists>er. mmap_result f = MAP_FAILED er)"
  shows "\<exists>r s'. stress_mmapfiles_reg c f s = Some (r, s')
     \<and> mmapfile_info s' = mmapfile_info s \<and> bogo s' = bogo s
     \<and> n_mappings s' = n_mappings s \<and> mappings s' = mappings s
     \<and> (\<not> enomem s \<and> n_mappings s < MMAP_MAX \<and> k \<and> \<not> stress_is_dot_filename nm \<longrightarrow>
          readdir_loop c (DT_REG k nm f # ds) s =
            (case r of Continue \<Rightarrow> readdir_loop c ds s' | Break \<Rightarrow> Some s'))"
proof -
  from stress_mmapfiles_reg_unmapped [OF assms] obtain r s' where
    a: "stress_mmapfiles_reg c f s = Some (r, s')"
    and b: "mmapfile_info s' = mmapfile_info s" "bogo s' = bogo s"
      "n_mappings s' = n_mappings s" "mappings s' = mappings s"
    by blast
  have "\<not> enomem s \<and> n_mappings s < MMAP_MAX \<and> k \<and> \<not> stress_is_dot_filename nm \<longrightarrow>
          readdir_loop c (DT_REG k nm f # ds) s =
            (case r of Continue \<Rightarrow> readdir_loop c ds s' | Break \<Rightarrow> Some s')"
    using a by (cases r) (simp_all add: readdir_loop_reg)
  with a b show ?thesis by blast
qed

text \<open>
  A file whose mapping fails with \<^verbatim>\<open>EACCES\<close> after a measured time of 5: the metrics block
  is still zero.
\<close>

theorem failed_entry_changes_nothing_witness:
  "mmap_result ((file_of 100 0)\<lparr>mmap_result := MAP_FAILED EACCES, mmap_delta := 5\<rparr>) = MAP_FAILED EACCES \<and>
   (\<exists>r s'. stress_mmapfiles_reg ctx_4k ((file_of 100 0)\<lparr>mmap_result := MAP_FAILED EACCES, mmap_delta := 5\<rparr>)
              (child_start zero_info 0) = Some (r, s')
      \<and> mmapfile_info s' = zero_info \<and> bogo s' = 0 \<and> n_mappings s' = 0)"
proof -
  have h: "\<not> open_ok ((file_of 100 0)\<lparr>mmap_result := MAP_FAILED EACCES, mmap_delta := 5\<rparr>)
      \<or> \<not> fstat_ok ((file_of 100 0)\<lparr>mmap_result := MAP_FAILED EACCES, mmap_delta := 5\<rparr>)
      \<or> (oom_avoid ctx_4k \<and> low_memory ((file_of 100 0)\<lparr>mmap_result := MAP_FAILED EACCES, mmap_delta := 5\<rparr>))
      \<or> (\<exists>er. mmap_result ((file_of 100 0)\<lparr>mmap_result := MAP_FAILED EACCES, mmap_delta := 5\<rparr>) = MAP_FAILED er)"
    by simp
  from failed_entry_changes_nothing [OF h, of "child_start zero_info 0" True "''a''" "[]"]
  show ?thesis by auto
qed

subsection \<open>The low-memory stop\<close>

lemma log_open_close: "log_event Ev_close (log_event Ev_open s) = s\<lparr>trace := trace s @ [Ev_open, Ev_close]\<rparr>"
  by (simp add: log_event_def)

text \<open>
  Claim C8, amended. The low-memory predicate is asked only when \<^verbatim>\<open>g_opt_flags\<close> has
  \<^verbatim>\<open>OPT_FLAGS_OOM_AVOID\<close> (line 125). With that flag set, when the loop reaches a regular
  file that opens and stats and the predicate answers true, the descriptor is opened and
  closed and nothing else changes (the state differs in its calls only: \<^verbatim>\<open>enomem\<close> stays
  false, no metric changes), the rest of this listing is left, and the loop of the
  parent directory goes on with its next entry.
\<close>

theorem low_memory_stops_listing:
  assumes "oom_avoid c" "low_memory f" "open_ok f" "fstat_ok f"
    and "\<not> enomem s" "n_mappings s < MMAP_MAX" "k" "\<not> stress_is_dot_filename nm"
  shows "readdir_loop c (DT_REG k nm f # rest) s = Some (s\<lparr>trace := trace s @ [Ev_open, Ev_close]\<rparr>)
    \<and> (k' \<and> \<not> stress_is_dot_filename dn \<longrightarrow>
         readdir_loop c (DT_DIR k' dn (Some (DT_REG k nm f # rest)) # ds) s =
           readdir_loop c ds (s\<lparr>trace := trace s @ [Ev_open, Ev_close]\<rparr>))"
proof -
  have r: "stress_mmapfiles_reg c f s = Some (Break, s\<lparr>trace := trace s @ [Ev_open, Ev_close]\<rparr>)"
    using assms(1-4) by (simp add: stress_mmapfiles_reg_def log_open_close)
  have a: "readdir_loop c (DT_REG k nm f # rest) s = Some (s\<lparr>trace := trace s @ [Ev_open, Ev_close]\<rparr>)"
    using assms(5-8) r by (simp add: readdir_loop_reg)
  have "k' \<and> \<not> stress_is_dot_filename dn \<longrightarrow>
         readdir_loop c (DT_DIR k' dn (Some (DT_REG k nm f # rest)) # ds) s =
           readdir_loop c ds (s\<lparr>trace := trace s @ [Ev_open, Ev_close]\<rparr>)"
    using assms(5,6) a by (simp add: readdir_loop_dir)
  with a show ?thesis by simp
qed

lemma MMAP_MAX_pos [simp]: "0 < MMAP_MAX" "1 < MMAP_MAX" "2 < MMAP_MAX"
  by (simp_all add: MMAP_MAX_def)

lemma dot_filename_simps [simp]:
  "\<not> stress_is_dot_filename ''a''" "\<not> stress_is_dot_filename ''b''" "\<not> stress_is_dot_filename ''d''"
  "stress_is_dot_filename ''.''" "stress_is_dot_filename ''..''"
  by (simp_all add: stress_is_dot_filename_def)

text \<open>
  With OOM avoidance on, a listing of a low-memory file and a second file stops at the
  first; as a subdirectory, its parent continues with the entry after it.
\<close>

theorem low_memory_stops_listing_witness:
  "readdir_loop ctx_oom [DT_REG True ''a'' low_file, DT_REG True ''b'' (file_of 10 8192)]
     (child_start zero_info 0) = Some ((child_start zero_info 0)\<lparr>trace := [Ev_open, Ev_close]\<rparr>)
   \<and> readdir_loop ctx_oom
       [DT_DIR True ''d'' (Some [DT_REG True ''a'' low_file, DT_REG True ''b'' (file_of 10 8192)]),
        DT_REG True ''b'' (file_of 10 8192)] (child_start zero_info 0) =
     readdir_loop ctx_oom [DT_REG True ''b'' (file_of 10 8192)]
       ((child_start zero_info 0)\<lparr>trace := [Ev_open, Ev_close]\<rparr>)"
  using low_memory_stops_listing [of ctx_oom low_file "child_start zero_info 0" True "''a''"
      "[DT_REG True ''b'' (file_of 10 8192)]" True "''d''" "[DT_REG True ''b'' (file_of 10 8192)]"]
  by (simp add: ctx_oom_def low_file_def)

text \<open>
  Claim C8 as stated fails without the flag: the predicate would answer true for the first
  file, yet it is mapped, and so is the file after it.
\<close>

theorem low_memory_ignored_without_oom_avoid:
  "low_memory low_file \<and>
   (\<exists>s'. readdir_loop ctx_4k [DT_REG True ''a'' low_file, DT_REG True ''b'' (file_of 10 8192)]
            (child_start zero_info 0) = Some s'
      \<and> n_mappings s' = 2
      \<and> mapped_regions (trace s') = [(4096, 4096), (8192, 10)]
      \<and> mmap_count (mmapfile_info s') = 2)"
  by (simp add: readdir_loop_reg stress_mmapfiles_reg_mapped low_file_def zero_info_def MMAP_MAX_def)

subsection \<open>Capacity\<close>

lemma readdir_loop_full:
  "MMAP_MAX \<le> n_mappings s \<Longrightarrow> readdir_loop c ds s = Some s"
  by (cases ds) (simp_all add: readdir_loop_stop)

lemma readdir_loop_enomem:
  "enomem s \<Longrightarrow> readdir_loop c ds s = Some s"
  by (cases ds) (simp_all add: readdir_loop_stop)

lemma stress_mmapfiles_dir_enomem:
  "enomem s \<Longrightarrow> stress_mmapfiles_dir c dir s = Some s"
  by (cases dir) (simp_all add: readdir_loop_enomem)

lemma stress_mmapfiles_reg_count:
  assumes "stress_mmapfiles_reg c f s = Some (r, s')"
  shows "n_mappings s \<le> n_mappings s' \<and> n_mappings s' \<le> n_mappings s + 1"
  using assms by (cases rule: stress_mmapfiles_reg_cases) auto

lemma traversal_capacity:
  assumes "stress_mmapfiles_dir c dir s = Some s'"
  shows "(n_mappings s \<le> MMAP_MAX \<longrightarrow> n_mappings s' \<le> MMAP_MAX) \<and> (MMAP_MAX \<le> n_mappings s \<longrightarrow> s' = s)"
proof (rule traversal_rule(1) [where c = c and dir = dir and s = s and s' = s' and
      R = "\<lambda>s s'. (n_mappings s \<le> MMAP_MAX \<longrightarrow> n_mappings s' \<le> MMAP_MAX) \<and> (MMAP_MAX \<le> n_mappings s \<longrightarrow> s' = s)"])
  show "stress_mmapfiles_dir c dir s = Some s'" by (rule assms)
next
  fix f s r s'
  assume "\<not> enomem s" "n_mappings s < MMAP_MAX" "stress_mmapfiles_reg c f s = Some (r, s')"
  then show "(n_mappings s \<le> MMAP_MAX \<longrightarrow> n_mappings s' \<le> MMAP_MAX) \<and> (MMAP_MAX \<le> n_mappings s \<longrightarrow> s' = s)"
    using stress_mmapfiles_reg_count [of c f s r s'] by auto
qed auto

lemma one_free_slot:
  assumes "0 < page_size c" "n_mappings s = MMAP_MAX - 1" "\<not> enomem s" "k" "\<not> stress_is_dot_filename nm"
    and "open_ok f" "fstat_ok f" "\<not> (oom_avoid c \<and> low_memory f)" "mmap_result f = Mapped p"
  shows "\<exists>s'. stress_mmapfiles_dir c (Some (DT_REG k nm f # rest)) s = Some s'
     \<and> n_mappings s' = MMAP_MAX
     \<and> mappings s' = (mappings s)(MMAP_MAX - 1 := \<lparr>addr = p, len = st_size f\<rparr>)
     \<and> mapped_regions (trace s') = mapped_regions (trace s) @ [(p, st_size f)]
     \<and> mmap_count (mmapfile_info s') = mmap_count (mmapfile_info s) + 1
     \<and> \<not> enomem s'"
proof -
  from stress_mmapfiles_reg_returns [OF assms(1)] obtain r s1 where
    a: "stress_mmapfiles_reg c f s = Some (r, s1)" by blast
  from a assms(6-9) have b: "r = Continue \<and> n_mappings s1 = MMAP_MAX
     \<and> mappings s1 = (mappings s)(MMAP_MAX - 1 := \<lparr>addr = p, len = st_size f\<rparr>)
     \<and> mapped_regions (trace s1) = mapped_regions (trace s) @ [(p, st_size f)]
     \<and> mmap_count (mmapfile_info s1) = mmap_count (mmapfile_info s) + 1
     \<and> \<not> enomem s1"
    using assms(2,3) by (cases rule: stress_mmapfiles_reg_cases) auto
  then have "readdir_loop c rest s1 = Some s1" by (simp add: readdir_loop_full)
  with a b assms(2-5) have "stress_mmapfiles_dir c (Some (DT_REG k nm f # rest)) s = Some s1"
    by (simp add: readdir_loop_reg)
  with b show ?thesis by blast
qed

text \<open>
  Claim C1. With a positive page size a traversal returns; started with a count of at
  most \<^verbatim>\<open>MMAP_MAX\<close> it ends with a count of at most \<^verbatim>\<open>MMAP_MAX\<close>, and started at capacity
  it changes nothing. With exactly one free slot, a listing that starts with a mappable
  regular file has that file mapped into the last slot, whatever follows it in the
  listing (a second mappable file, say) is left, and \<^verbatim>\<open>enomem\<close> stays false.
\<close>

theorem table_never_exceeds_capacity:
  assumes "0 < page_size c"
  shows "(\<exists>s'. stress_mmapfiles_dir c dir s = Some s'
           \<and> (n_mappings s \<le> MMAP_MAX \<longrightarrow> n_mappings s' \<le> MMAP_MAX)
           \<and> (MMAP_MAX \<le> n_mappings s \<longrightarrow> s' = s))
    \<and> (n_mappings s = MMAP_MAX - 1 \<and> \<not> enomem s \<and> k \<and> \<not> stress_is_dot_filename nm
          \<and> open_ok f \<and> fstat_ok f \<and> \<not> (oom_avoid c \<and> low_memory f) \<and> mmap_result f = Mapped p \<longrightarrow>
        (\<exists>s'. stress_mmapfiles_dir c (Some (DT_REG k nm f # rest)) s = Some s'
           \<and> n_mappings s' = MMAP_MAX
           \<and> mappings s' = (mappings s)(MMAP_MAX - 1 := \<lparr>addr = p, len = st_size f\<rparr>)
           \<and> mapped_regions (trace s') = mapped_regions (trace s) @ [(p, st_size f)]
           \<and> mmap_count (mmapfile_info s') = mmap_count (mmapfile_info s) + 1
           \<and> \<not> enomem s'))"
proof -
  from traversal_returns(1) [OF assms] obtain s' where a: "stress_mmapfiles_dir c dir s = Some s'"
    by blast
  from traversal_capacity [OF a] a have
    "\<exists>s'. stress_mmapfiles_dir c dir s = Some s'
           \<and> (n_mappings s \<le> MMAP_MAX \<longrightarrow> n_mappings s' \<le> MMAP_MAX)
           \<and> (MMAP_MAX \<le> n_mappings s \<longrightarrow> s' = s)" by blast
  then show ?thesis using one_free_slot [OF assms, of s k nm f p rest] by blast
qed

text \<open>
  One free slot and a directory of two mappable files: the first is mapped, the second
  is not.
\<close>

theorem table_never_exceeds_capacity_witness:
  "\<exists>s'. stress_mmapfiles_dir ctx_4k
       (Some [DT_REG True ''a'' (file_of 100 4096), DT_REG True ''b'' (file_of 200 8192)])
       last_slot_start = Some s'
     \<and> n_mappings s' = MMAP_MAX
     \<and> mapped_regions (trace s') = [(4096, 100)]
     \<and> mmap_count (mmapfile_info s') = 1
     \<and> \<not> enomem s'"
  using table_never_exceeds_capacity [of ctx_4k "Some []" last_slot_start True "''a''" "file_of 100 4096" 4096
      "[DT_REG True ''b'' (file_of 200 8192)]"]
  by (auto simp: last_slot_start_def zero_info_def)

subsection \<open>Out of memory\<close>

lemma first_attempt_rel_refl: "first_attempt_rel s s"
  by (simp add: first_attempt_rel_def)

lemma first_attempt_rel_trans:
  assumes "first_attempt_rel s s'" "first_attempt_rel s' s''"
  shows "first_attempt_rel s s''"
proof -
  from assms(1) obtain l1 where
    e1: "enomem s \<longrightarrow> s' = s"
    and t1: "mmap_results (trace s') = mmap_results (trace s) @ l1"
    and n1: "l1 = [] \<longrightarrow> n_mappings s' = n_mappings s \<and> enomem s' = enomem s"
    and f1: "\<forall>rest. l1 = MAP_FAILED ENOMEM # rest \<longrightarrow>
              rest = [] \<and> n_mappings s' = n_mappings s \<and> enomem s'"
    unfolding first_attempt_rel_def by blast
  from assms(2) obtain l2 where
    e2: "enomem s' \<longrightarrow> s'' = s'"
    and t2: "mmap_results (trace s'') = mmap_results (trace s') @ l2"
    and n2: "l2 = [] \<longrightarrow> n_mappings s'' = n_mappings s' \<and> enomem s'' = enomem s'"
    and f2: "\<forall>rest. l2 = MAP_FAILED ENOMEM # rest \<longrightarrow>
              rest = [] \<and> n_mappings s'' = n_mappings s' \<and> enomem s''"
    unfolding first_attempt_rel_def by blast
  have t: "mmap_results (trace s'') = mmap_results (trace s) @ (l1 @ l2)"
    using t1 t2 by simp
  have a: "enomem s \<longrightarrow> s'' = s" using e1 e2 by auto
  have b: "l1 @ l2 = [] \<longrightarrow> n_mappings s'' = n_mappings s \<and> enomem s'' = enomem s"
    using n1 n2 by simp
  have c: "rest = [] \<and> n_mappings s'' = n_mappings s \<and> enomem s''"
    if h: "l1 @ l2 = MAP_FAILED ENOMEM # rest" for rest
  proof (cases l1)
    case Nil
    with h f2 n1 show ?thesis by simp
  next
    case (Cons x l1')
    with h have x: "l1 = MAP_FAILED ENOMEM # l1'" and r: "rest = l1' @ l2" by simp_all
    from f1 x have l1': "l1' = []" and n: "n_mappings s' = n_mappings s" and e: "enomem s'" by simp_all
    from e e2 have s: "s'' = s'" by simp
    with t2 have "l2 = []" by simp
    with r l1' n e s show ?thesis by simp
  qed
  show ?thesis unfolding first_attempt_rel_def using a t b c by blast
qed

lemma first_attempt_rel_step:
  assumes "\<not> enomem s" "stress_mmapfiles_reg c f s = Some (r, s')"
  shows "first_attempt_rel s s'"
  using assms(2)
proof (cases rule: stress_mmapfiles_reg_cases)
  case (mapped p s1)
  from mapped(13) obtain evs where
    "trace s1 = trace s @ Ev_open # Ev_mmap (st_size f) (mmap_shared c) (mmap_populate c) (Mapped p) # evs"
    "evs = [] \<or> (\<exists>k. evs = [Ev_populate k])" by blast
  then have "mmap_results (trace s') = mmap_results (trace s) @ [Mapped p]"
    using mapped(6) by auto
  then show ?thesis using assms(1) unfolding first_attempt_rel_def by simp
qed (simp_all add: first_attempt_rel_def assms(1))

lemma traversal_first_attempt:
  "stress_mmapfiles_dir c dir s = Some s' \<Longrightarrow> first_attempt_rel s s'"
  by (rule traversal_rule(1) [where R = first_attempt_rel and c = c])
    (auto intro: first_attempt_rel_refl first_attempt_rel_trans first_attempt_rel_step)

text \<open>
  Claim C3. With a positive page size a traversal returns. If the first \<^verbatim>\<open>mmap\<close> call it
  makes fails with \<^verbatim>\<open>ENOMEM\<close>, it makes no other, the table count is as at entry and
  \<^verbatim>\<open>enomem\<close> is set. Started with \<^verbatim>\<open>enomem\<close> set, a traversal changes nothing, and the
  loop of any frame, whatever is left of its listing, returns at once.
\<close>

theorem first_attempt_enomem:
  assumes "0 < page_size c"
  shows "\<exists>s'. stress_mmapfiles_dir c dir s = Some s'
     \<and> (\<forall>rest. mmap_results (trace s') = mmap_results (trace s) @ MAP_FAILED ENOMEM # rest \<longrightarrow>
           rest = [] \<and> n_mappings s' = n_mappings s \<and> enomem s')
     \<and> (enomem s \<longrightarrow> s' = s \<and> readdir_loop c ds s = Some s)"
proof -
  from traversal_returns(1) [OF assms] obtain s' where a: "stress_mmapfiles_dir c dir s = Some s'"
    by blast
  from traversal_first_attempt [OF a] have
    "(\<forall>rest. mmap_results (trace s') = mmap_results (trace s) @ MAP_FAILED ENOMEM # rest \<longrightarrow>
           rest = [] \<and> n_mappings s' = n_mappings s \<and> enomem s')"
    and "enomem s \<longrightarrow> s' = s"
    unfolding first_attempt_rel_def by auto
  with a show ?thesis by (auto simp: readdir_loop_enomem)
qed

lemma stress_mmapfiles_reg_enomem:
  "open_ok f \<Longrightarrow> fstat_ok f \<Longrightarrow> \<not> (oom_avoid c \<and> low_memory f) \<Longrightarrow>
   mmap_result f = MAP_FAILED ENOMEM \<Longrightarrow>
   stress_mmapfiles_reg c f s =
     Some (Break, log_event Ev_close
       ((log_event (Ev_mmap (st_size f) (mmap_shared c) (mmap_populate c) (MAP_FAILED ENOMEM))
          (log_event Ev_open s))\<lparr>enomem := True\<rparr>))"
  by (auto simp: stress_mmapfiles_reg_def Let_def)

text \<open>
  The first file met, in a subdirectory, fails with \<^verbatim>\<open>ENOMEM\<close>: its sibling and the
  file after the subdirectory are not tried.
\<close>

theorem first_attempt_enomem_witness:
  "\<exists>s'. stress_mmapfiles_dir ctx_4k
       (Some [DT_OTHER True ''a'',
              DT_DIR True ''d'' (Some [DT_REG True ''a'' enomem_file, DT_REG True ''b'' (file_of 10 4096)]),
              DT_REG True ''b'' (file_of 10 8192)])
       (child_start zero_info 0) = Some s'
     \<and> mmap_results (trace s') = [MAP_FAILED ENOMEM] \<and> n_mappings s' = 0 \<and> enomem s'"
  using first_attempt_enomem [of ctx_4k
      "Some [DT_OTHER True ''a'',
              DT_DIR True ''d'' (Some [DT_REG True ''a'' enomem_file, DT_REG True ''b'' (file_of 10 4096)]),
              DT_REG True ''b'' (file_of 10 8192)]" "child_start zero_info 0" "[]"]
  by (simp add: readdir_loop_other readdir_loop_dir readdir_loop_reg stress_mmapfiles_reg_enomem
      readdir_loop_enomem enomem_file_def)

section \<open>The table and the accumulators over a traversal\<close>

lemma table_rel_refl: "table_rel c s s"
  by (simp add: table_rel_def)

lemma table_rel_trans:
  assumes "table_rel c s s'" "table_rel c s' s''"
  shows "table_rel c s s''"
proof -
  let ?n = "n_mappings s" and ?n' = "n_mappings s'" and ?n'' = "n_mappings s''"
  from assms have le: "?n \<le> ?n'" "?n' \<le> ?n''" by (simp_all add: table_rel_def)
  from assms(2) have keep: "\<And>i. i < ?n' \<Longrightarrow> mappings s'' i = mappings s' i"
    by (simp add: table_rel_def)
  have frame: "\<forall>i. i < ?n \<or> ?n'' \<le> i \<longrightarrow> mappings s'' i = mappings s i"
    using assms le by (auto simp: table_rel_def)
  have "(\<Sum>i = ?n..<?n''. page_count (len (mappings s'' i)) (page_size c)) =
        (\<Sum>i = ?n..<?n'. page_count (len (mappings s'' i)) (page_size c))
        + (\<Sum>i = ?n'..<?n''. page_count (len (mappings s'' i)) (page_size c))"
    using le by (simp add: sum.atLeastLessThan_concat)
  also have "(\<Sum>i = ?n..<?n'. page_count (len (mappings s'' i)) (page_size c)) =
        (\<Sum>i = ?n..<?n'. page_count (len (mappings s' i)) (page_size c))"
    by (rule sum.cong) (simp_all add: keep)
  finally have pages: "mmap_page_count (mmapfile_info s'') =
       mmap_page_count (mmapfile_info s)
         + (\<Sum>i = ?n..<?n''. page_count (len (mappings s'' i)) (page_size c))"
    using assms by (simp add: table_rel_def)
  have "map (slot s'') [?n..<?n''] = map (slot s'') [?n..<?n'] @ map (slot s'') [?n'..<?n'']"
    using le by (metis map_append upt_add_eq_append le_Suc_ex)
  moreover have "map (slot s'') [?n..<?n'] = map (slot s') [?n..<?n']"
    by (rule map_cong) (simp_all add: slot_def keep)
  ultimately have regions: "mapped_regions (trace s'') =
      mapped_regions (trace s) @ map (slot s'') [?n..<?n'']"
    using assms by (simp add: table_rel_def)
  have count: "mmap_count (mmapfile_info s'') = mmap_count (mmapfile_info s) + real (?n'' - ?n)"
    using assms le by (simp add: table_rel_def of_nat_diff)
  have bogo: "bogo s'' = bogo s + (?n'' - ?n)"
    using assms le by (simp add: table_rel_def)
  show ?thesis
    unfolding table_rel_def
    using le frame pages count bogo regions assms
    by (simp add: table_rel_def)
qed

lemma table_rel_step:
  assumes "stress_mmapfiles_reg c f s = Some (r, s')"
  shows "table_rel c s s'"
  using assms
proof (cases rule: stress_mmapfiles_reg_cases)
  case (mapped p s1)
  from mapped(13) obtain evs where
    "trace s1 = trace s @ Ev_open # Ev_mmap (st_size f) (mmap_shared c) (mmap_populate c) (Mapped p) # evs"
    "evs = [] \<or> (\<exists>k. evs = [Ev_populate k])" by blast
  then have "mapped_regions (trace s') = mapped_regions (trace s) @ [(p, st_size f)]"
    and "munmap_calls (trace s') = munmap_calls (trace s)"
    and "retry_calls (trace s') = retry_calls (trace s)"
    using mapped(6) by auto
  then show ?thesis
    using mapped by (simp add: table_rel_def slot_def)
qed (simp_all add: table_rel_def)

lemma traversal_table:
  "stress_mmapfiles_dir c dir s = Some s' \<Longrightarrow> table_rel c s s'"
  by (rule traversal_rule(1) [where R = "table_rel c" and c = c])
    (auto intro: table_rel_refl table_rel_trans table_rel_step)

text \<open>No slot from \<^verbatim>\<open>MMAP_MAX\<close> on is written: the table is never overrun.\<close>

lemma traversal_in_bounds:
  assumes "stress_mmapfiles_dir c dir s = Some s'" "MMAP_MAX \<le> i"
  shows "mappings s' i = mappings s i"
proof (cases "MMAP_MAX \<le> n_mappings s")
  case True
  with traversal_capacity [OF assms(1)] show ?thesis by simp
next
  case False
  with traversal_capacity [OF assms(1)] have "n_mappings s' \<le> i" using assms(2) by simp
  with traversal_table [OF assms(1)] show ?thesis by (simp add: table_rel_def)
qed

lemma traversal_rotation:
  "stress_mmapfiles_dir c dir s = Some s' \<Longrightarrow>
     idx s' = idx s \<and> roots_visited (trace s') = roots_visited (trace s)"
proof (rule traversal_rule(1) [where c = c and dir = dir and s = s and s' = s' and
      R = "\<lambda>s s'. idx s' = idx s \<and> roots_visited (trace s') = roots_visited (trace s)"])
  fix f s r s'
  assume "stress_mmapfiles_reg c f s = Some (r, s')"
  then show "idx s' = idx s \<and> roots_visited (trace s') = roots_visited (trace s)"
    by (cases rule: stress_mmapfiles_reg_cases) auto
qed auto

subsection \<open>One root, and the loop over the roots\<close>

lemma length_dirs [simp]: "length dirs = 11"
  by (simp add: dirs_def)

declare roots_loop.simps [simp del] munmap_loop.simps [simp del]

lemma next_idx: "i < length dirs \<Longrightarrow> (if length dirs \<le> i + 1 then 0 else i + 1) = (i + 1) mod length dirs"
  by (cases "i = 10") auto

lemma visit_root_returns:
  "0 < page_size c \<Longrightarrow> \<exists>s'. visit_root c e s = Some s'"
  using traversal_returns(1) [of c "opendir e (dirs ! idx s)"
      "log_event (Ev_root (dirs ! idx s)) (s\<lparr>enomem := False\<rparr>)"]
  by (auto simp: visit_root_def)

lemma visit_root_table:
  assumes "visit_root c e s = Some s'"
  shows "table_rel c s s'"
proof -
  let ?s0 = "log_event (Ev_root (dirs ! idx s)) (s\<lparr>enomem := False\<rparr>)"
  from assms obtain s1 where
    a: "stress_mmapfiles_dir c (opendir e (dirs ! idx s)) ?s0 = Some s1"
    and b: "s' = s1\<lparr>idx := (if length dirs \<le> idx s + 1 then 0 else idx s + 1)\<rparr>"
    by (auto simp: visit_root_def split: option.splits)
  have "table_rel c s ?s0" by (simp add: table_rel_def)
  moreover have "table_rel c ?s0 s1" using a by (rule traversal_table)
  moreover have "table_rel c s1 s'" using b by (simp add: table_rel_def slot_def)
  ultimately show ?thesis by (blast intro: table_rel_trans)
qed

lemma visit_root_rotation:
  assumes "visit_root c e s = Some s'" "idx s < length dirs"
  shows "idx s' = (idx s + 1) mod length dirs
     \<and> roots_visited (trace s') = roots_visited (trace s) @ [dirs ! idx s]"
proof -
  let ?s0 = "log_event (Ev_root (dirs ! idx s)) (s\<lparr>enomem := False\<rparr>)"
  from assms obtain s1 where
    a: "stress_mmapfiles_dir c (opendir e (dirs ! idx s)) ?s0 = Some s1"
    and b: "s' = s1\<lparr>idx := (if length dirs \<le> idx s + 1 then 0 else idx s + 1)\<rparr>"
    by (auto simp: visit_root_def split: option.splits)
  from traversal_rotation [OF a] b next_idx [OF assms(2)] show ?thesis by simp
qed

lemma roots_loop_rule:
  assumes rfl: "\<And>s. R s s"
    and trn: "\<And>s s' s''. R s s' \<Longrightarrow> R s' s'' \<Longrightarrow> R s s''"
    and stp: "\<And>s s'. visit_root c e s = Some s' \<Longrightarrow> R s s'"
  shows "roots_loop c e i s = Some s' \<Longrightarrow> R s s'"
proof -
  have "c' = c \<Longrightarrow> e' = e \<Longrightarrow> roots_loop c' e' i s = Some s' \<Longrightarrow> R s s'" for c' e'
  proof (induction c' e' i s rule: roots_loop.induct)
    case (1 c' e' i s)
    show ?case
    proof (cases "i < length dirs")
      case True
      with "1.prems" obtain s1 where
        a: "visit_root c' e' s = Some s1"
        and b: "(enomem s1 \<and> s' = s1) \<or> (\<not> enomem s1 \<and> roots_loop c' e' (i + 1) s1 = Some s')"
        using roots_loop.simps [of c' e' i s] by (auto split: option.splits if_splits)
      have s: "R s s1" using stp a "1.prems" by simp
      from b show ?thesis
      proof
        assume "enomem s1 \<and> s' = s1"
        with s show ?thesis by simp
      next
        assume c: "\<not> enomem s1 \<and> roots_loop c' e' (i + 1) s1 = Some s'"
        then have "R s1 s'" using "1.IH" True a "1.prems" by blast
        with s show ?thesis by (rule trn)
      qed
    next
      case False
      with "1.prems" show ?thesis using rfl roots_loop.simps [of c' e' i s] by simp
    qed
  qed
  then show "roots_loop c e i s = Some s' \<Longrightarrow> R s s'" by simp
qed

lemma roots_loop_returns:
  "0 < page_size c \<Longrightarrow> \<exists>s'. roots_loop c e i s = Some s'"
proof (induction c e i s rule: roots_loop.induct)
  case (1 c e i s)
  show ?case
  proof (cases "i < length dirs")
    case True
    from visit_root_returns [OF "1.prems"] obtain s1 where a: "visit_root c e s = Some s1" by blast
    show ?thesis
    proof (cases "enomem s1")
      case True
      with a \<open>i < length dirs\<close> show ?thesis by (subst roots_loop.simps) simp
    next
      case False
      with "1.IH" \<open>i < length dirs\<close> a "1.prems" obtain s2 where
        "roots_loop c e (i + 1) s1 = Some s2" by blast
      with a False \<open>i < length dirs\<close> show ?thesis by (subst roots_loop.simps) simp
    qed
  next
    case False
    then show ?thesis by (subst roots_loop.simps) simp
  qed
qed

lemma roots_loop_table:
  "roots_loop c e i s = Some s' \<Longrightarrow> table_rel c s s'"
  by (rule roots_loop_rule [where R = "table_rel c" and c = c and e = e])
    (auto intro: table_rel_refl table_rel_trans visit_root_table)

lemma roots_loop_rotation:
  "roots_loop c e i s = Some s' \<Longrightarrow> idx s < length dirs \<Longrightarrow> i \<le> length dirs \<Longrightarrow>
   \<exists>k. k \<le> length dirs - i \<and> (i < length dirs \<longrightarrow> 0 < k)
     \<and> roots_visited (trace s') =
         roots_visited (trace s) @ map (\<lambda>j. dirs ! ((idx s + j) mod length dirs)) [0..<k]
     \<and> idx s' = (idx s + k) mod length dirs
     \<and> (k < length dirs - i \<longrightarrow> enomem s')"
proof (induction c e i s rule: roots_loop.induct)
  case (1 c e i s)
  show ?case
  proof (cases "i < length dirs")
    case True
    with "1.prems"(1) obtain s1 where
      a: "visit_root c e s = Some s1"
      and b: "(enomem s1 \<and> s' = s1) \<or> (\<not> enomem s1 \<and> roots_loop c e (i + 1) s1 = Some s')"
      using roots_loop.simps [of c e i s] by (auto split: option.splits if_splits)
    from visit_root_rotation [OF a "1.prems"(2)] have
      i1: "idx s1 = (idx s + 1) mod length dirs"
      and r1: "roots_visited (trace s1) = roots_visited (trace s) @ [dirs ! idx s]" by simp_all
    from b show ?thesis
    proof
      assume "enomem s1 \<and> s' = s1"
      with i1 r1 True "1.prems"(2) show ?thesis by (intro exI [of _ 1]) simp
    next
      assume c: "\<not> enomem s1 \<and> roots_loop c e (i + 1) s1 = Some s'"
      have "idx s1 < length dirs" using i1 by simp
      with "1.IH" [OF True a] c True obtain k where
        k: "k \<le> length dirs - (i + 1)"
        and rk: "roots_visited (trace s') =
           roots_visited (trace s1) @ map (\<lambda>j. dirs ! ((idx s1 + j) mod length dirs)) [0..<k]"
        and ik: "idx s' = (idx s1 + k) mod length dirs"
        and ek: "k < length dirs - (i + 1) \<longrightarrow> enomem s'"
        by auto
      have m: "(idx s1 + j) mod length dirs = (idx s + Suc j) mod length dirs" for j
        unfolding i1 by (simp add: mod_add_left_eq)
      have "map (\<lambda>j. dirs ! ((idx s + j) mod length dirs)) [0..<Suc k] =
            dirs ! idx s # map (\<lambda>j. dirs ! ((idx s1 + j) mod length dirs)) [0..<k]"
        using "1.prems"(2) by (simp add: map_upt_Suc m del: upt_Suc length_dirs)
      with rk r1 have "roots_visited (trace s') =
          roots_visited (trace s) @ map (\<lambda>j. dirs ! ((idx s + j) mod length dirs)) [0..<Suc k]"
        by simp
      moreover have "idx s' = (idx s + Suc k) mod length dirs" using ik m [of k] by simp
      ultimately show ?thesis using k ek True by (intro exI [of _ "Suc k"]) auto
    qed
  next
    case False
    with "1.prems" have "s' = s" using roots_loop.simps [of c e i s] by simp
    with False "1.prems" show ?thesis by (intro exI [of _ 0]) simp
  qed
qed

subsection \<open>The unmap loop\<close>

lemma munmap_slot_fields [simp]:
  "n_mappings (munmap_slot c e i s) = n_mappings s"
  "bogo (munmap_slot c e i s) = bogo s"
  "enomem (munmap_slot c e i s) = enomem s"
  "idx (munmap_slot c e i s) = idx s"
  "mappings (munmap_slot c e i s) = (mappings s)(i := no_mapping)"
  "mmap_page_count (mmapfile_info (munmap_slot c e i s)) = mmap_page_count (mmapfile_info s)"
  "mmap_count (mmapfile_info (munmap_slot c e i s)) = mmap_count (mmapfile_info s)"
  "mmap_duration (mmapfile_info (munmap_slot c e i s)) = mmap_duration (mmapfile_info s)"
  by (simp_all add: munmap_slot_def Let_def no_mapping_def)

lemma munmap_slot_info:
  "munmap_count (mmapfile_info (munmap_slot c e i s)) =
     munmap_count (mmapfile_info s) + (if munmap_ok e i then 1 else 0)"
  "munmap_page_count (mmapfile_info (munmap_slot c e i s)) =
     munmap_page_count (mmapfile_info s)
       + (if munmap_ok e i then page_count (len (mappings s i)) (page_size c) else 0)"
  "munmap_duration (mmapfile_info (munmap_slot c e i s)) =
     munmap_duration (mmapfile_info s) + (if munmap_ok e i then munmap_delta e i else 0)"
  by (simp_all add: munmap_slot_def Let_def)

lemma munmap_slot_trace:
  "munmap_calls (trace (munmap_slot c e i s)) = munmap_calls (trace s) @ [slot s i]"
  "retry_calls (trace (munmap_slot c e i s)) =
     retry_calls (trace s) @ (if munmap_ok e i then [] else [slot s i])"
  "mapped_regions (trace (munmap_slot c e i s)) = mapped_regions (trace s)"
  "mmap_flags (trace (munmap_slot c e i s)) = mmap_flags (trace s)"
  "roots_visited (trace (munmap_slot c e i s)) = roots_visited (trace s)"
  by (simp_all add: munmap_slot_def Let_def slot_def)

text \<open>What the loop from \<open>i\<close> to \<open>n\<close> has done when it ends.\<close>

lemma munmap_loop_frame:
  "n_mappings (munmap_loop c e n i s) = n_mappings s
   \<and> bogo (munmap_loop c e n i s) = bogo s
   \<and> enomem (munmap_loop c e n i s) = enomem s
   \<and> idx (munmap_loop c e n i s) = idx s
   \<and> mmap_page_count (mmapfile_info (munmap_loop c e n i s)) = mmap_page_count (mmapfile_info s)
   \<and> mmap_count (mmapfile_info (munmap_loop c e n i s)) = mmap_count (mmapfile_info s)
   \<and> mmap_duration (mmapfile_info (munmap_loop c e n i s)) = mmap_duration (mmapfile_info s)
   \<and> mapped_regions (trace (munmap_loop c e n i s)) = mapped_regions (trace s)
   \<and> mmap_flags (trace (munmap_loop c e n i s)) = mmap_flags (trace s)
   \<and> roots_visited (trace (munmap_loop c e n i s)) = roots_visited (trace s)"
proof (induction c e n i s rule: munmap_loop.induct)
  case (1 c e n i s)
  show ?case
  proof (cases "i < n")
    case True
    with "1.IH" show ?thesis
      by (subst (1 2 3 4 5 6 7 8 9 10) munmap_loop.simps) (simp add: munmap_slot_trace)
  next
    case False
    then show ?thesis by (simp add: munmap_loop.simps)
  qed
qed

lemma munmap_loop_table:
  "mappings (munmap_loop c e n i s) j = (if i \<le> j \<and> j < n then no_mapping else mappings s j)"
proof (induction c e n i s rule: munmap_loop.induct)
  case (1 c e n i s)
  show ?case
  proof (cases "i < n")
    case True
    with "1.IH" show ?thesis by (subst munmap_loop.simps) auto
  next
    case False
    then show ?thesis by (simp add: munmap_loop.simps)
  qed
qed

lemma munmap_loop_calls:
  "munmap_calls (trace (munmap_loop c e n i s)) = munmap_calls (trace s) @ map (slot s) [i..<n]
   \<and> retry_calls (trace (munmap_loop c e n i s)) =
       retry_calls (trace s) @ map (slot s) (filter (\<lambda>j. \<not> munmap_ok e j) [i..<n])"
proof (induction c e n i s rule: munmap_loop.induct)
  case (1 c e n i s)
  show ?case
  proof (cases "i < n")
    case True
    have "map (slot (munmap_slot c e i s)) [i + 1..<n] = map (slot s) [i + 1..<n]"
      by (rule map_cong) (simp_all add: slot_def)
    moreover have "map (slot (munmap_slot c e i s)) (filter (\<lambda>j. \<not> munmap_ok e j) [i + 1..<n]) =
        map (slot s) (filter (\<lambda>j. \<not> munmap_ok e j) [i + 1..<n])"
      by (rule map_cong) (simp_all add: slot_def)
    ultimately show ?thesis
      using "1.IH" [OF True] True
      by (subst (1 2) munmap_loop.simps) (simp add: munmap_slot_trace upt_conv_Cons)
  next
    case False
    then show ?thesis by (simp add: munmap_loop.simps)
  qed
qed

lemma munmap_loop_info:
  "munmap_count (mmapfile_info (munmap_loop c e n i s)) =
     munmap_count (mmapfile_info s) + real (length (filter (munmap_ok e) [i..<n]))
   \<and> munmap_page_count (mmapfile_info (munmap_loop c e n i s)) =
     munmap_page_count (mmapfile_info s)
       + (\<Sum>j\<leftarrow>filter (munmap_ok e) [i..<n]. page_count (len (mappings s j)) (page_size c))"
proof (induction c e n i s rule: munmap_loop.induct)
  case (1 c e n i s)
  show ?case
  proof (cases "i < n")
    case True
    have "(\<Sum>j\<leftarrow>filter (munmap_ok e) [i + 1..<n].
              page_count (len (mappings (munmap_slot c e i s) j)) (page_size c)) =
          (\<Sum>j\<leftarrow>filter (munmap_ok e) [i + 1..<n]. page_count (len (mappings s j)) (page_size c))"
      by (rule arg_cong [where f = sum_list], rule map_cong) simp_all
    then show ?thesis
      using "1.IH" [OF True] True
      by (subst (1 2) munmap_loop.simps) (simp add: munmap_slot_info upt_conv_Cons)
  next
    case False
    then show ?thesis by (simp add: munmap_loop.simps)
  qed
qed

subsection \<open>One cycle\<close>

lemma cycle_parts:
  assumes "0 < page_size c"
  obtains s1 where "roots_loop c e 0 (s\<lparr>n_mappings := 0\<rparr>) = Some s1"
    and "cycle c e s = Some (munmap_loop c e (n_mappings s1) 0 s1)"
proof -
  from roots_loop_returns [OF assms] obtain s1 where
    "roots_loop c e 0 (s\<lparr>n_mappings := 0\<rparr>) = Some s1" by blast
  then show ?thesis using that by (simp add: cycle_def)
qed

lemma cycle_start_table:
  assumes "roots_loop c e 0 (s\<lparr>n_mappings := 0\<rparr>) = Some s1"
  shows "(\<forall>i. n_mappings s1 \<le> i \<longrightarrow> mappings s1 i = mappings s i)
    \<and> mapped_regions (trace s1) = mapped_regions (trace s) @ map (slot s1) [0..<n_mappings s1]
    \<and> munmap_calls (trace s1) = munmap_calls (trace s)
    \<and> retry_calls (trace s1) = retry_calls (trace s)
    \<and> mmap_count (mmapfile_info s1) = mmap_count (mmapfile_info s) + real (n_mappings s1)
    \<and> mmap_page_count (mmapfile_info s1) =
        mmap_page_count (mmapfile_info s)
          + (\<Sum>i = 0..<n_mappings s1. page_count (len (mappings s1 i)) (page_size c))
    \<and> munmap_count (mmapfile_info s1) = munmap_count (mmapfile_info s)
    \<and> munmap_page_count (mmapfile_info s1) = munmap_page_count (mmapfile_info s)"
  using roots_loop_table [OF assms] by (simp add: table_rel_def)

text \<open>
  The table of \<open>child_start\<close> is all clear, as \<^verbatim>\<open>calloc\<close> leaves it, and a cycle started on
  a clear table ends on a clear table: every cycle of a run starts and ends so.
\<close>

lemma cycle_table_clear:
  "cycle c e s = Some s' \<Longrightarrow> mappings s = (\<lambda>_. no_mapping) \<Longrightarrow> mappings s' = (\<lambda>_. no_mapping)"
proof -
  assume a: "cycle c e s = Some s'" and b: "mappings s = (\<lambda>_. no_mapping)"
  from a obtain s1 where
    r: "roots_loop c e 0 (s\<lparr>n_mappings := 0\<rparr>) = Some s1"
    and s': "s' = munmap_loop c e (n_mappings s1) 0 s1"
    by (auto simp: cycle_def split: option.splits)
  from cycle_start_table [OF r] b s' show ?thesis
    by (auto simp: munmap_loop_table fun_eq_iff)
qed

lemma do_while_table_clear:
  "do_while c es s = Some s' \<Longrightarrow> mappings s = (\<lambda>_. no_mapping) \<Longrightarrow> mappings s' = (\<lambda>_. no_mapping)"
proof (induction es arbitrary: s)
  case Nil
  then show ?case by simp
next
  case (Cons e es)
  from Cons.prems(1) obtain s1 where
    a: "cycle c e s = Some s1"
    and b: "(stress_continue e \<and> do_while c es s1 = Some s') \<or> (\<not> stress_continue e \<and> s' = s1)"
    by (auto split: option.splits if_splits)
  from cycle_table_clear [OF a Cons.prems(2)] b Cons.IH show ?case by blast
qed

text \<open>
  Claim C4. With a positive page size a cycle returns. Let \<open>s1\<close> be the state at the end
  of its traversal pass and \<open>n\<close> the count then. The cycle makes \<open>n\<close> \<^verbatim>\<open>munmap\<close> calls,
  on the slots \<open>0\<close> to \<open>n - 1\<close> in this order, and these are the regions the cycle
  mapped, in the order it mapped them; the retry helper is called for the slots whose
  \<^verbatim>\<open>munmap\<close> failed; every slot below \<open>n\<close> is cleared, also those; the other slots are as
  before the cycle, so a table that was all clear is all clear again.
\<close>

theorem unmap_pass_clears_table:
  assumes "0 < page_size c"
  shows "\<exists>s1 s'. roots_loop c e 0 (s\<lparr>n_mappings := 0\<rparr>) = Some s1 \<and> cycle c e s = Some s'
     \<and> munmap_calls (trace s') = munmap_calls (trace s) @ map (slot s1) [0..<n_mappings s1]
     \<and> mapped_regions (trace s') = mapped_regions (trace s) @ map (slot s1) [0..<n_mappings s1]
     \<and> retry_calls (trace s') =
         retry_calls (trace s) @ map (slot s1) (filter (\<lambda>i. \<not> munmap_ok e i) [0..<n_mappings s1])
     \<and> (\<forall>i. i < n_mappings s1 \<longrightarrow> mappings s' i = no_mapping)
     \<and> (\<forall>i. n_mappings s1 \<le> i \<longrightarrow> mappings s' i = mappings s i)
     \<and> (mappings s = (\<lambda>_. no_mapping) \<longrightarrow> mappings s' = (\<lambda>_. no_mapping))"
proof -
  from cycle_parts [OF assms] obtain s1 where
    a: "roots_loop c e 0 (s\<lparr>n_mappings := 0\<rparr>) = Some s1"
    and b: "cycle c e s = Some (munmap_loop c e (n_mappings s1) 0 s1)" by blast
  let ?s' = "munmap_loop c e (n_mappings s1) 0 s1"
  note t = cycle_start_table [OF a]
  have 1: "munmap_calls (trace ?s') = munmap_calls (trace s) @ map (slot s1) [0..<n_mappings s1]"
    using munmap_loop_calls [of c e "n_mappings s1" 0 s1] t by simp
  have 2: "mapped_regions (trace ?s') = mapped_regions (trace s) @ map (slot s1) [0..<n_mappings s1]"
    using munmap_loop_frame [of c e "n_mappings s1" 0 s1] t by simp
  have 3: "retry_calls (trace ?s') =
         retry_calls (trace s) @ map (slot s1) (filter (\<lambda>i. \<not> munmap_ok e i) [0..<n_mappings s1])"
    using munmap_loop_calls [of c e "n_mappings s1" 0 s1] t by simp
  have 4: "\<forall>i. i < n_mappings s1 \<longrightarrow> mappings ?s' i = no_mapping"
    by (simp add: munmap_loop_table)
  have 5: "\<forall>i. n_mappings s1 \<le> i \<longrightarrow> mappings ?s' i = mappings s i"
    using t by (simp add: munmap_loop_table)
  have 6: "mappings s = (\<lambda>_. no_mapping) \<longrightarrow> mappings ?s' = (\<lambda>_. no_mapping)"
    using t by (auto simp: munmap_loop_table fun_eq_iff)
  from a b 1 2 3 4 5 6 show ?thesis by blast
qed

text \<open>
  Claim C10. In a cycle in which every \<^verbatim>\<open>munmap\<close> call succeeds, \<^verbatim>\<open>munmap_count\<close> grows
  by the number of live entries and \<^verbatim>\<open>munmap_page_count\<close> grows by what the traversal
  pass of the cycle added to \<^verbatim>\<open>mmap_page_count\<close>: both passes apply \<open>page_count\<close> to
  the length recorded in the slot.
\<close>

theorem munmap_totals_match:
  assumes "0 < page_size c"
  shows "\<exists>s1 s'. roots_loop c e 0 (s\<lparr>n_mappings := 0\<rparr>) = Some s1 \<and> cycle c e s = Some s'
     \<and> ((\<forall>i. i < n_mappings s1 \<longrightarrow> munmap_ok e i) \<longrightarrow>
          munmap_count (mmapfile_info s') = munmap_count (mmapfile_info s) + real (n_mappings s1)
          \<and> munmap_page_count (mmapfile_info s') - munmap_page_count (mmapfile_info s) =
              mmap_page_count (mmapfile_info s1) - mmap_page_count (mmapfile_info s)
          \<and> mmap_page_count (mmapfile_info s') = mmap_page_count (mmapfile_info s1)
          \<and> mmap_count (mmapfile_info s') = mmap_count (mmapfile_info s) + real (n_mappings s1))"
proof -
  from cycle_parts [OF assms] obtain s1 where
    a: "roots_loop c e 0 (s\<lparr>n_mappings := 0\<rparr>) = Some s1"
    and b: "cycle c e s = Some (munmap_loop c e (n_mappings s1) 0 s1)" by blast
  let ?n = "n_mappings s1"
  let ?s' = "munmap_loop c e ?n 0 s1"
  note t = cycle_start_table [OF a]
  have "munmap_count (mmapfile_info ?s') = munmap_count (mmapfile_info s) + real ?n
      \<and> munmap_page_count (mmapfile_info ?s') - munmap_page_count (mmapfile_info s) =
          mmap_page_count (mmapfile_info s1) - mmap_page_count (mmapfile_info s)
      \<and> mmap_page_count (mmapfile_info ?s') = mmap_page_count (mmapfile_info s1)
      \<and> mmap_count (mmapfile_info ?s') = mmap_count (mmapfile_info s) + real ?n"
    if ok: "\<forall>i. i < ?n \<longrightarrow> munmap_ok e i"
  proof -
    from ok have f: "filter (munmap_ok e) [0..<?n] = [0..<?n]" by (simp add: filter_id_conv)
    have "(\<Sum>j\<leftarrow>[0..<?n]. page_count (len (mappings s1 j)) (page_size c)) =
          (\<Sum>j = 0..<?n. page_count (len (mappings s1 j)) (page_size c))"
      by (simp add: sum_list_sum_nth atLeast0LessThan)
    with munmap_loop_info [of c e ?n 0 s1] munmap_loop_frame [of c e ?n 0 s1] f t
    show ?thesis by simp
  qed
  with a b show ?thesis by blast
qed

text \<open>
  Claim C5. A cycle started with the cursor at \<open>idx\<close> visits \<open>k\<close> roots, at least one and
  at most all, namely \<open>dirs ! ((idx + j) mod 11)\<close> for \<open>j < k\<close>, and ends with the cursor at
  \<open>(idx + k) mod 11\<close>; fewer than all are visited only when the last one raised
  \<^verbatim>\<open>enomem\<close>. The next cycle starts at that position.
\<close>

theorem rotation_cursor:
  assumes "0 < page_size c" "idx s < length dirs"
  shows "\<exists>s' k. cycle c e s = Some s' \<and> 0 < k \<and> k \<le> length dirs
     \<and> roots_visited (trace s') =
         roots_visited (trace s) @ map (\<lambda>j. dirs ! ((idx s + j) mod length dirs)) [0..<k]
     \<and> idx s' = (idx s + k) mod length dirs
     \<and> (k < length dirs \<longrightarrow> enomem s')
     \<and> (\<exists>s'' k'. cycle c e' s' = Some s'' \<and> 0 < k'
          \<and> roots_visited (trace s'') =
              roots_visited (trace s') @ map (\<lambda>j. dirs ! ((idx s + k + j) mod length dirs)) [0..<k'])"
proof -
  have one: "\<exists>s' k. cycle c e s = Some s' \<and> 0 < k \<and> k \<le> length dirs
     \<and> roots_visited (trace s') =
         roots_visited (trace s) @ map (\<lambda>j. dirs ! ((idx s + j) mod length dirs)) [0..<k]
     \<and> idx s' = (idx s + k) mod length dirs
     \<and> (k < length dirs \<longrightarrow> enomem s')"
    if i: "idx s < length dirs" for e s
  proof -
    from cycle_parts [OF assms(1)] obtain s1 where
      a: "roots_loop c e 0 (s\<lparr>n_mappings := 0\<rparr>) = Some s1"
      and b: "cycle c e s = Some (munmap_loop c e (n_mappings s1) 0 s1)" by blast
    from roots_loop_rotation [OF a] i obtain k where
      "k \<le> length dirs" "0 < k"
      "roots_visited (trace s1) =
         roots_visited (trace s) @ map (\<lambda>j. dirs ! ((idx s + j) mod length dirs)) [0..<k]"
      "idx s1 = (idx s + k) mod length dirs" "k < length dirs \<longrightarrow> enomem s1"
      by auto
    with b munmap_loop_frame [of c e "n_mappings s1" 0 s1] show ?thesis
      by (intro exI [of _ "munmap_loop c e (n_mappings s1) 0 s1"] exI [of _ k]) simp
  qed
  from one [OF assms(2), of e] obtain s' k where
    1: "cycle c e s = Some s'" "0 < k" "k \<le> length dirs"
      "roots_visited (trace s') =
         roots_visited (trace s) @ map (\<lambda>j. dirs ! ((idx s + j) mod length dirs)) [0..<k]"
      "idx s' = (idx s + k) mod length dirs" "k < length dirs \<longrightarrow> enomem s'"
    by blast
  then have "idx s' < length dirs" by simp
  from one [OF this, of e'] obtain s'' k' where
    2: "cycle c e' s' = Some s''" "0 < k'"
      "roots_visited (trace s'') =
         roots_visited (trace s') @ map (\<lambda>j. dirs ! ((idx s' + j) mod length dirs)) [0..<k']"
    by blast
  have "(idx s' + j) mod length dirs = (idx s + k + j) mod length dirs" for j
    unfolding 1(5) by (simp add: mod_add_left_eq)
  with 2 have "\<exists>s'' k'. cycle c e' s' = Some s'' \<and> 0 < k'
          \<and> roots_visited (trace s'') =
              roots_visited (trace s') @ map (\<lambda>j. dirs ! ((idx s + k + j) mod length dirs)) [0..<k']"
    by auto
  with 1 show ?thesis by blast
qed

subsection \<open>Cycles run on the examples\<close>

lemmas run_simps =
  cycle_def roots_loop.simps munmap_loop.simps visit_root_def dirs_def readdir_loop_reg
  readdir_loop_other readdir_loop_dir stress_mmapfiles_reg_mapped stress_mmapfiles_reg_enomem
  readdir_loop_enomem MMAP_MAX_def

lemma two_files_roots:
  "\<exists>s1. roots_loop ctx_4k two_files_env 0 ((child_start zero_info 0)\<lparr>n_mappings := 0\<rparr>) = Some s1
     \<and> n_mappings s1 = 2 \<and> slot s1 0 = (4096, 4095) \<and> slot s1 1 = (8192, 10)
     \<and> mmap_page_count (mmapfile_info s1) = 4095 / 2048 + 4105 / 4096"
  by (simp add: run_simps two_files_env_def slot_def page_count_def zero_info_def)

text \<open>
  Two files mapped, the second \<^verbatim>\<open>munmap\<close> fails: two \<^verbatim>\<open>munmap\<close> calls in table order,
  one call of the retry helper, and a clear table.
\<close>

theorem unmap_pass_clears_table_witness:
  "\<exists>s'. cycle ctx_4k two_files_env (child_start zero_info 0) = Some s'
     \<and> munmap_calls (trace s') = [(4096, 4095), (8192, 10)]
     \<and> mapped_regions (trace s') = [(4096, 4095), (8192, 10)]
     \<and> retry_calls (trace s') = [(8192, 10)]
     \<and> mappings s' = (\<lambda>_. no_mapping)"
proof -
  from unmap_pass_clears_table [of ctx_4k two_files_env "child_start zero_info 0"] two_files_roots
  obtain s1 s' where
    "roots_loop ctx_4k two_files_env 0 ((child_start zero_info 0)\<lparr>n_mappings := 0\<rparr>) = Some s1"
    "n_mappings s1 = 2" "slot s1 0 = (4096, 4095)" "slot s1 1 = (8192, 10)"
    "cycle ctx_4k two_files_env (child_start zero_info 0) = Some s'"
    "munmap_calls (trace s') = map (slot s1) [0..<n_mappings s1]"
    "mapped_regions (trace s') = map (slot s1) [0..<n_mappings s1]"
    "retry_calls (trace s') = map (slot s1) (filter (\<lambda>i. \<not> munmap_ok two_files_env i) [0..<n_mappings s1])"
    "mappings s' = (\<lambda>_. no_mapping)"
    by auto
  then show ?thesis by (simp add: upt_conv_Cons two_files_env_def)
qed

lemma munmap_ok_all_ok_env [simp]: "munmap_ok all_ok_env i"
  by (simp add: all_ok_env_def)

lemma all_ok_roots:
  "\<exists>s1. roots_loop ctx_4k all_ok_env 0 ((child_start zero_info 0)\<lparr>n_mappings := 0\<rparr>) = Some s1
     \<and> n_mappings s1 = 2
     \<and> mmap_page_count (mmapfile_info s1) = 4095 / 2048 + 4105 / 4096"
  by (simp add: run_simps all_ok_env_def two_files_env_def page_count_def zero_info_def)

text \<open>
  Two files of 4095 and 10 bytes, every \<^verbatim>\<open>munmap\<close> succeeding: both page counts end at
  \<open>4095 / 2048 + 4105 / 4096\<close>.
\<close>

theorem munmap_totals_match_witness:
  "\<exists>s'. cycle ctx_4k all_ok_env (child_start zero_info 0) = Some s'
     \<and> munmap_count (mmapfile_info s') = 2
     \<and> munmap_page_count (mmapfile_info s') = 4095 / 2048 + 4105 / 4096
     \<and> mmap_page_count (mmapfile_info s') = 4095 / 2048 + 4105 / 4096
     \<and> mmap_count (mmapfile_info s') = 2"
proof -
  from munmap_totals_match [of ctx_4k all_ok_env "child_start zero_info 0"] all_ok_roots
  obtain s1 s' where
    "roots_loop ctx_4k all_ok_env 0 ((child_start zero_info 0)\<lparr>n_mappings := 0\<rparr>) = Some s1"
    "n_mappings s1 = 2" "mmap_page_count (mmapfile_info s1) = 4095 / 2048 + 4105 / 4096"
    "cycle ctx_4k all_ok_env (child_start zero_info 0) = Some s'"
    "(\<forall>i. i < n_mappings s1 \<longrightarrow> munmap_ok all_ok_env i) \<longrightarrow>
          munmap_count (mmapfile_info s') = munmap_count (mmapfile_info (child_start zero_info 0)) + real (n_mappings s1)
          \<and> munmap_page_count (mmapfile_info s') - munmap_page_count (mmapfile_info (child_start zero_info 0)) =
              mmap_page_count (mmapfile_info s1) - mmap_page_count (mmapfile_info (child_start zero_info 0))
          \<and> mmap_page_count (mmapfile_info s') = mmap_page_count (mmapfile_info s1)
          \<and> mmap_count (mmapfile_info s') = mmap_count (mmapfile_info (child_start zero_info 0)) + real (n_mappings s1)"
    by auto
  then show ?thesis by (simp add: zero_info_def)
qed

lemma enomem_cycle:
  "cycle ctx_4k enomem_env (child_start zero_info 0) = Some after_enomem"
  by (simp add: run_simps enomem_env_def enomem_file_def after_enomem_def child_start_def log_event_def)

lemma after_enomem_cycle:
  "\<exists>s''. cycle ctx_4k two_files_env after_enomem = Some s''
     \<and> roots_visited (trace s'') =
         [''/lib'', ''/lib32'', ''/lib64'', ''/boot'', ''/bin'', ''/etc,'', ''/sbin'', ''/usr'', ''/var'',
          ''/sys'', ''/proc'', ''/lib'', ''/lib32'', ''/lib64'']
     \<and> idx s'' = 3"
  by (simp add: run_simps munmap_slot_trace two_files_env_def after_enomem_def)

text \<open>
  The third root raises \<^verbatim>\<open>enomem\<close>: the cursor stops at 3, and the next cycle visits
  \<^verbatim>\<open>/boot\<close> first and, after \<^verbatim>\<open>/proc\<close>, the first three roots again.
\<close>

theorem rotation_cursor_witness:
  "cycle ctx_4k enomem_env (child_start zero_info 0) = Some after_enomem
   \<and> idx after_enomem = 3 \<and> enomem after_enomem
   \<and> roots_visited (trace after_enomem) = [''/lib'', ''/lib32'', ''/lib64'']
   \<and> (\<exists>s''. cycle ctx_4k two_files_env after_enomem = Some s''
        \<and> roots_visited (trace s'') =
            [''/lib'', ''/lib32'', ''/lib64'', ''/boot'', ''/bin'', ''/etc,'', ''/sbin'', ''/usr'', ''/var'',
             ''/sys'', ''/proc'', ''/lib'', ''/lib32'', ''/lib64'']
        \<and> idx s'' = 3)"
  using rotation_cursor [of ctx_4k "child_start zero_info 0" enomem_env two_files_env]
    enomem_cycle after_enomem_cycle
  by (simp add: after_enomem_def)

subsection \<open>The settings\<close>

lemma stress_mmapfiles_reg_flags:
  assumes "stress_mmapfiles_reg c f s = Some (r, s')" "flags_of c (trace s)"
  shows "flags_of c (trace s')"
  using assms(1)
proof (cases rule: stress_mmapfiles_reg_cases)
  case (mapped p s1)
  from mapped(13) obtain evs where
    "trace s1 = trace s @ Ev_open # Ev_mmap (st_size f) (mmap_shared c) (mmap_populate c) (Mapped p) # evs"
    "evs = [] \<or> (\<exists>k. evs = [Ev_populate k])" by blast
  then have "mmap_flags (trace s') = mmap_flags (trace s) @ [(mmap_shared c, mmap_populate c)]"
    using mapped(6) by auto
  with assms(2) show ?thesis by (simp add: flags_of_def)
qed (use assms(2) in \<open>simp_all add: flags_of_def\<close>)

lemma traversal_flags:
  "stress_mmapfiles_dir c dir s = Some s' \<Longrightarrow> flags_of c (trace s) \<longrightarrow> flags_of c (trace s')"
  by (rule traversal_rule(1) [where c = c and R = "\<lambda>s s'. flags_of c (trace s) \<longrightarrow> flags_of c (trace s')"])
    (auto intro: stress_mmapfiles_reg_flags)

lemma visit_root_flags:
  assumes "visit_root c e s = Some s'"
  shows "flags_of c (trace s) \<longrightarrow> flags_of c (trace s')"
proof -
  let ?s0 = "log_event (Ev_root (dirs ! idx s)) (s\<lparr>enomem := False\<rparr>)"
  from assms obtain s1 where
    a: "stress_mmapfiles_dir c (opendir e (dirs ! idx s)) ?s0 = Some s1"
    and b: "trace s' = trace s1"
    by (auto simp: visit_root_def split: option.splits)
  from traversal_flags [OF a] b show ?thesis by (simp add: flags_of_def)
qed

lemma roots_loop_flags:
  "roots_loop c e i s = Some s' \<Longrightarrow> flags_of c (trace s) \<longrightarrow> flags_of c (trace s')"
  by (rule roots_loop_rule [where c = c and e = e and R = "\<lambda>s s'. flags_of c (trace s) \<longrightarrow> flags_of c (trace s')"])
    (auto dest: visit_root_flags)

lemma cycle_flags:
  assumes "cycle c e s = Some s'" "flags_of c (trace s)"
  shows "flags_of c (trace s')"
proof -
  from assms(1) obtain s1 where
    a: "roots_loop c e 0 (s\<lparr>n_mappings := 0\<rparr>) = Some s1"
    and b: "s' = munmap_loop c e (n_mappings s1) 0 s1"
    by (auto simp: cycle_def split: option.splits)
  from roots_loop_flags [OF a] assms(2) have "flags_of c (trace s1)" by simp
  with b munmap_loop_frame [of c e "n_mappings s1" 0 s1] show ?thesis by (simp add: flags_of_def)
qed

lemma do_while_flags:
  "do_while c es s = Some s' \<Longrightarrow> flags_of c (trace s) \<Longrightarrow> flags_of c (trace s')"
proof (induction es arbitrary: s)
  case Nil
  then show ?case by simp
next
  case (Cons e es)
  from Cons.prems(1) obtain s1 where
    a: "cycle c e s = Some s1"
    and b: "(stress_continue e \<and> do_while c es s1 = Some s') \<or> (\<not> stress_continue e \<and> s' = s1)"
    by (auto split: option.splits if_splits)
  from cycle_flags [OF a Cons.prems(2)] have "flags_of c (trace s1)" .
  with b Cons.IH show ?case by blast
qed

text \<open>The answers of a cycle apart from the settings store.\<close>

lemma visit_root_settings: "visit_root c (e\<lparr>settings_now := st\<rparr>) s = visit_root c e s"
  by (simp add: visit_root_def)

lemma munmap_slot_settings: "munmap_slot c (e\<lparr>settings_now := st\<rparr>) i s = munmap_slot c e i s"
  by (simp add: munmap_slot_def Let_def)

lemma roots_loop_settings: "roots_loop c (e\<lparr>settings_now := st\<rparr>) i s = roots_loop c e i s"
proof (induction c e i s rule: roots_loop.induct)
  case (1 c e i s)
  show ?case
  proof (cases "i < length dirs")
    case True
    show ?thesis
    proof (cases "visit_root c e s")
      case None
      with True show ?thesis
        by (subst (1 2) roots_loop.simps) (simp add: visit_root_settings)
    next
      case (Some s1)
      with True "1.IH" [OF True Some] show ?thesis
        by (subst (1 2) roots_loop.simps) (simp add: visit_root_settings)
    qed
  next
    case False
    then show ?thesis by (simp add: roots_loop.simps)
  qed
qed

lemma munmap_loop_settings: "munmap_loop c (e\<lparr>settings_now := st\<rparr>) n i s = munmap_loop c e n i s"
proof (induction c e n i s rule: munmap_loop.induct)
  case (1 c e n i s)
  show ?case
  proof (cases "i < n")
    case True
    with "1.IH" show ?thesis
      by (subst (1 2) munmap_loop.simps) (simp add: munmap_slot_settings)
  next
    case False
    then show ?thesis by (simp add: munmap_loop.simps)
  qed
qed

lemma cycle_settings: "cycle c (e\<lparr>settings_now := st\<rparr>) s = cycle c e s"
  by (simp add: cycle_def roots_loop_settings munmap_loop_settings cong: option.case_cong)

lemma do_while_settings:
  "list_all2 (\<lambda>e e'. e' = e\<lparr>settings_now := settings_now e'\<rparr>) es es' \<Longrightarrow>
   do_while c es' s = do_while c es s"
proof (induction es es' arbitrary: s rule: list_all2_induct)
  case Nil
  show ?case by simp
next
  case (Cons e es e' es')
  from Cons.hyps(1) have "cycle c e' s = cycle c e s" and "stress_continue e' = stress_continue e"
    by (metis cycle_settings, metis cycle_env.select_convs(5) cycle_env.surjective cycle_env.update_convs(4))
  with Cons.IH show ?case by (simp split: option.splits)
qed

text \<open>
  Claim C6, amended. The two settings are read once, when the child starts, before the
  loop (lines 183 and 184): a run on cycles that differ in the settings store only is
  the same run, and every \<^verbatim>\<open>mmap\<close> call of a run carries the flags of the store the
  child started with.
\<close>

theorem settings_read_at_child_start:
  "(list_all2 (\<lambda>e e'. e' = e\<lparr>settings_now := settings_now e'\<rparr>) es es' \<longrightarrow>
      stress_mmapfiles_child ps oom store ok es' info0 bogo0 =
      stress_mmapfiles_child ps oom store ok es info0 bogo0)
   \<and> (\<forall>ex s. stress_mmapfiles_child ps oom store ok es info0 bogo0 = Some (ex, s) \<longrightarrow>
        (\<forall>x \<in> set (mmap_flags (trace s)).
           x = (stress_get_setting store ''mmapfiles-shared'' False,
                stress_get_setting store ''mmapfiles-populate'' False)))"
proof -
  let ?c = "\<lparr>page_size = ps, oom_avoid = oom,
             mmap_populate = stress_get_setting store ''mmapfiles-populate'' False,
             mmap_shared = stress_get_setting store ''mmapfiles-shared'' False\<rparr>"
  have a: "list_all2 (\<lambda>e e'. e' = e\<lparr>settings_now := settings_now e'\<rparr>) es es' \<longrightarrow>
      stress_mmapfiles_child ps oom store ok es' info0 bogo0 =
      stress_mmapfiles_child ps oom store ok es info0 bogo0"
    by (simp add: stress_mmapfiles_child_def Let_def do_while_settings)
  have b: "\<forall>x \<in> set (mmap_flags (trace s)).
           x = (stress_get_setting store ''mmapfiles-shared'' False,
                stress_get_setting store ''mmapfiles-populate'' False)"
    if h: "stress_mmapfiles_child ps oom store ok es info0 bogo0 = Some (ex, s)" for ex s
  proof (cases ok)
    case True
    with h have "do_while ?c es (child_start info0 bogo0) = Some s"
      by (auto simp: stress_mmapfiles_child_def Let_def split: option.splits)
    from do_while_flags [OF this] show ?thesis by (simp add: flags_of_def)
  next
    case False
    with h show ?thesis by (auto simp: stress_mmapfiles_child_def Let_def)
  qed
  from a b show ?thesis by blast
qed

lemmas child_simps =
  stress_mmapfiles_child_def stress_get_setting_def one_file_env_def Let_def run_simps
  munmap_slot_trace

text \<open>
  Claim C6 as stated fails: the store has "mmapfiles-shared" set while the second cycle
  runs, and the \<^verbatim>\<open>mmap\<close> call of that cycle is still private.
\<close>

theorem settings_change_not_observed:
  "stress_get_setting (settings_now (one_file_env shared_on False)) ''mmapfiles-shared'' False
   \<and> (\<exists>s. stress_mmapfiles_child 4096 False (\<lambda>_. None) True
             [one_file_env (\<lambda>_. None) True, one_file_env shared_on False] zero_info 0 =
           Some (EXIT_SUCCESS, s)
        \<and> mmap_flags (trace s) = [(False, False), (False, False)])"
  by (simp add: child_simps shared_on_def)

text \<open>
  The run on a store changed before the second cycle is the run on the unchanged store;
  and a child started with "mmapfiles-shared" set maps shared.
\<close>

theorem settings_read_at_child_start_witness:
  "stress_mmapfiles_child 4096 False (\<lambda>_. None) True
       [one_file_env (\<lambda>_. None) True, one_file_env shared_on False] zero_info 0 =
     stress_mmapfiles_child 4096 False (\<lambda>_. None) True
       [one_file_env (\<lambda>_. None) True, one_file_env (\<lambda>_. None) False] zero_info 0
   \<and> (\<exists>s. stress_mmapfiles_child 4096 False shared_on True
             [one_file_env (\<lambda>_. None) False] zero_info 0 = Some (EXIT_SUCCESS, s)
        \<and> mmap_flags (trace s) = [(True, False)])"
proof -
  have "list_all2 (\<lambda>e e'. e' = e\<lparr>settings_now := settings_now e'\<rparr>)
          [one_file_env (\<lambda>_. None) True, one_file_env (\<lambda>_. None) False]
          [one_file_env (\<lambda>_. None) True, one_file_env shared_on False]"
    by (simp add: one_file_env_def)
  with settings_read_at_child_start [of "[one_file_env (\<lambda>_. None) True, one_file_env (\<lambda>_. None) False]"
      "[one_file_env (\<lambda>_. None) True, one_file_env shared_on False]" 4096 False "\<lambda>_. None" True zero_info 0]
  have 1: "stress_mmapfiles_child 4096 False (\<lambda>_. None) True
       [one_file_env (\<lambda>_. None) True, one_file_env shared_on False] zero_info 0 =
     stress_mmapfiles_child 4096 False (\<lambda>_. None) True
       [one_file_env (\<lambda>_. None) True, one_file_env (\<lambda>_. None) False] zero_info 0"
    by blast
  have 2: "\<exists>s. stress_mmapfiles_child 4096 False shared_on True
             [one_file_env (\<lambda>_. None) False] zero_info 0 = Some (EXIT_SUCCESS, s)
        \<and> mmap_flags (trace s) = [(True, False)]"
    by (simp add: child_simps shared_on_def stress_mmapfiles_reg_def)
  from 1 2 show ?thesis by blast
qed

end
